theory Spec2Isabelle
  imports Main "HOL-Library.Word"
begin

unbundle bit_operations_syntax

chapter \<open>The skewer syslog forwarder: a shallow embedding\<close>

text \<open>
  The first part of this theory holds the definitions, each one a translation of a
  function of the Go sources; the second part holds the properties proved of them.
\<close>

section \<open>Definitions\<close>

subsection \<open>Identifiers and store callbacks\<close>

text \<open>
  \<open>utils.MyULID\<close> is a 128-bit identifier; \<open>utils.ZeroUid\<close> is its zero value.
  A destination reports the fate of a message to the store through one of three
  callbacks (\<open>baseDestination.ack\<close>, \<open>nack\<close>, \<open>permerr\<close> in store/dests/base.go);
  the model records every invocation, in order.
\<close>

type_synonym MyULID = "128 word"

definition ZeroUid :: MyULID where
  "ZeroUid = 0"

datatype callback_event = Ack MyULID | Nack MyULID | Permerr MyULID

subsection \<open>The TCP destination (store/dests/tcpdest.go)\<close>

text \<open>
  The outcome of \<open>d.clt.Send(message)\<close>: no error, an error for which
  \<open>encoders.IsEncodingError\<close> holds, or any other error (a failed write).
\<close>

datatype send_result = SendOk | EncodingError | WriteError

text \<open>
  The mutable part of a \<open>TCPDestination\<close>: \<open>previousUid\<close>, whether the \<open>fatal\<close>
  channel has been closed (\<open>dofatal\<close> closes it once), and the callbacks invoked so far.
\<close>

record tcp_destination =
  previousUid :: MyULID
  fatal_closed :: bool
  calls :: "callback_event list"

definition tcp_ack :: "MyULID \<Rightarrow> tcp_destination \<Rightarrow> tcp_destination" where
  "tcp_ack u d = d\<lparr>calls := calls d @ [Ack u]\<rparr>"

definition tcp_nack :: "MyULID \<Rightarrow> tcp_destination \<Rightarrow> tcp_destination" where
  "tcp_nack u d = d\<lparr>calls := calls d @ [Nack u]\<rparr>"

definition tcp_permerr :: "MyULID \<Rightarrow> tcp_destination \<Rightarrow> tcp_destination" where
  "tcp_permerr u d = d\<lparr>calls := calls d @ [Permerr u]\<rparr>"

definition tcp_dofatal :: "tcp_destination \<Rightarrow> tcp_destination" where
  "tcp_dofatal d = d\<lparr>fatal_closed := True\<rparr>"

text \<open>\<open>TCPDestination.sendOne\<close>; the second component is whether an error is returned.\<close>

definition sendOne :: "tcp_destination \<Rightarrow> MyULID \<Rightarrow> send_result \<Rightarrow> tcp_destination \<times> bool" where
  "sendOne d uid res =
     (case res of
        SendOk \<Rightarrow>
          (let d1 = (if previousUid d \<noteq> ZeroUid then tcp_ack (previousUid d) d else d)
           in (d1\<lparr>previousUid := uid\<rparr>, False))
      | EncodingError \<Rightarrow> (tcp_permerr uid d, True)
      | WriteError \<Rightarrow>
          (let d1 = tcp_nack uid d;
               d2 = (if previousUid d1 \<noteq> ZeroUid
                     then (tcp_nack (previousUid d1) d1)\<lparr>previousUid := ZeroUid\<rparr>
                     else d1)
           in (tcp_dofatal d2, True)))"

text \<open>
  \<open>TCPDestination.Send\<close>: the messages of a batch one after the other; the error
  returned is that of the last message that failed.
\<close>

fun Send_loop :: "tcp_destination \<Rightarrow> bool \<Rightarrow> (MyULID \<times> send_result) list \<Rightarrow> tcp_destination \<times> bool" where
  "Send_loop d err [] = (d, err)"
| "Send_loop d err ((uid, res) # msgs) =
     (case sendOne d uid res of (d', e) \<Rightarrow> Send_loop d' (if e then True else err) msgs)"

definition Send :: "tcp_destination \<Rightarrow> (MyULID \<times> send_result) list \<Rightarrow> tcp_destination \<times> bool" where
  "Send d msgs = Send_loop d False msgs"

text \<open>A destination right after \<open>NewTCPDestination\<close>.\<close>

definition new_tcp_destination :: tcp_destination where
  "new_tcp_destination = \<lparr>previousUid = ZeroUid, fatal_closed = False, calls = []\<rparr>"

subsection \<open>The HTTP destination\<close>

text \<open>
  What the environment answers during one \<open>HTTPDestination.dosendOne\<close>: whether the URL
  template fails, whether the encoder fails, whether \<open>http.NewRequest\<close> fails, and the
  result of \<open>d.clt.Do(req)\<close>: \<open>None\<close> for an error, otherwise the status code.
\<close>

record http_env =
  url_execute_fails :: bool
  encoder_fails :: bool
  new_request_fails :: bool
  do_result :: "int option"

text \<open>
  \<open>HTTPDestination.dosendOne\<close>: the callbacks invoked, and whether an error is returned
  (\<open>dosend\<close> calls \<open>dofatal\<close> and stops on a returned error).
\<close>

definition dosendOne :: "http_env \<Rightarrow> MyULID \<Rightarrow> callback_event list \<times> bool" where
  "dosendOne env uid =
     (if url_execute_fails env then ([Permerr uid], False)
      else if encoder_fails env then ([Permerr uid], False)
      else if new_request_fails env then ([Permerr uid], False)
      else case do_result env of
             None \<Rightarrow> ([Nack uid], True)
           | Some StatusCode \<Rightarrow>
               if 200 \<le> StatusCode \<and> StatusCode < 300 then ([Ack uid], False)
               else if 400 \<le> StatusCode \<and> StatusCode < 500 then ([Nack uid], True)
               else if 500 \<le> StatusCode \<and> StatusCode < 600 then ([Nack uid], True)
               else ([Nack uid], True))"

subsection \<open>Configuration reload in the serve child\<close>

text \<open>
  The configuration held by the serve child (\<open>ch.conf\<close>, a \<open>conf.BaseConfig\<close>). The code
  of \<open>serveChild.Serve\<close> touches the \<open>Store\<close> section and the \<open>EncryptIPC\<close> flag of the
  \<open>Main\<close> section; the content of the \<open>Store\<close> section, the rest of \<open>Main\<close> and the
  other sections are kept abstract.
\<close>

record 'm MainConfig =
  EncryptIPC :: bool
  main_other :: 'm

record ('s, 'm, 'o) BaseConfig =
  Store :: 's
  Main :: "'m MainConfig"
  other_sections :: 'o

record ('s, 'm, 'o) serveChild =
  conf :: "('s, 'm, 'o) BaseConfig"
  shutdown_called :: bool

text \<open>
  The branch \<open>case newConf := <-ch.confChan\<close> of the main loop of \<open>serveChild.Serve\<close>.
  \<open>None\<close> is the nil received from a closed channel; \<open>reload_ok\<close> tells whether
  \<open>ch.Reload()\<close> returns without error.
\<close>

definition Serve_confChan ::
  "('s, 'm, 'o) serveChild \<Rightarrow> ('s, 'm, 'o) BaseConfig option \<Rightarrow> bool \<Rightarrow> ('s, 'm, 'o) serveChild" where
  "Serve_confChan ch received reload_ok =
     (case received of
        Some newConf \<Rightarrow>
          (let newConf1 = newConf\<lparr>Store := Store (conf ch)\<rparr>;
               newConf2 = newConf1\<lparr>Main := (Main newConf1)\<lparr>EncryptIPC := EncryptIPC (Main (conf ch))\<rparr>\<rparr>;
               ch1 = ch\<lparr>conf := newConf2\<rparr>
           in if reload_ok then ch1 else ch1\<lparr>shutdown_called := True\<rparr>)
      | None \<Rightarrow> ch\<lparr>shutdown_called := True\<rparr>)"

text \<open>A run of accepted reloads: each element is an incoming snapshot and the outcome of its reload.\<close>

fun Serve_reloads ::
  "('s, 'm, 'o) serveChild \<Rightarrow> (('s, 'm, 'o) BaseConfig \<times> bool) list \<Rightarrow> ('s, 'm, 'o) serveChild" where
  "Serve_reloads ch [] = ch"
| "Serve_reloads ch ((newConf, ok) # rest) = Serve_reloads (Serve_confChan ch (Some newConf) ok) rest"

text \<open>
  \<open>GConfig.Reload\<close> of the conf package: the configuration is loaded again with
  \<open>InitLoad\<close> (a parameter here: \<open>None\<close> when it returns an error), and the directory of
  the store is copied from the current configuration.
\<close>

record StoreConfig =
  Dirname :: string

record ('y, 'k, 'p) GConfig =
  Syslog :: 'y
  Kafka :: 'k
  GStore :: StoreConfig
  conf_Dirname :: string
  ConsulPrefix :: string
  ConsulParams :: 'p

definition Reload ::
  "(string \<Rightarrow> 'p \<Rightarrow> string \<Rightarrow> ('y, 'k, 'p) GConfig option) \<Rightarrow> ('y, 'k, 'p) GConfig
     \<Rightarrow> ('y, 'k, 'p) GConfig option" where
  "Reload InitLoad c =
     (case InitLoad (conf_Dirname c) (ConsulParams c) (ConsulPrefix c) of
        None \<Rightarrow> None
      | Some newConf \<Rightarrow> Some (newConf\<lparr>GStore := (GStore newConf)\<lparr>Dirname := Dirname (GStore c)\<rparr>\<rparr>))"

subsection \<open>The configuration provider (services/configuration.go)\<close>

text \<open>\<open>strings.SplitN(s, " ", 2)\<close>: one part when there is no space, else two.\<close>

fun SplitN2 :: "string \<Rightarrow> string list" where
  "SplitN2 [] = [[]]"
| "SplitN2 (c # cs) =
     (if c = CHR '' '' then [[], cs]
      else (case SplitN2 cs of [] \<Rightarrow> [[c]] | a # rest \<Rightarrow> (c # a) # rest))"

text \<open>\<open>strings.TrimSpace\<close>, on the ASCII white space characters.\<close>

definition isSpace :: "char \<Rightarrow> bool" where
  "isSpace c = (c \<in> set [CHR '' '', CHR 0x09, CHR 0x0A, CHR 0x0B, CHR 0x0C, CHR 0x0D])"

definition TrimSpace :: "string \<Rightarrow> string" where
  "TrimSpace s = rev (dropWhile isSpace (rev (dropWhile isSpace s)))"

text \<open>
  \<open>consul.ConnParams\<close>: the sources at hand read its \<open>Address\<close> field; further fields
  live in the extension slot of the record. Its zero value has the empty address.
\<close>

record ConnParams =
  Address :: string

definition zero_ConnParams :: ConnParams where
  "zero_ConnParams = \<lparr>Address = []\<rparr>"

text \<open>
  What the provider's loop depends on from outside: \<open>json.Unmarshal(data, &v)\<close>, which
  updates \<open>v\<close> or fails (\<open>None\<close>); whether \<open>start(confdir, params, ...)\<close> succeeds beyond its
  own check of the directory; whether writing \<open>reloaded\<close> succeeds; and
  \<open>filepath.Join("/tmp", "conf", confdir)\<close>.
\<close>

record conf_env =
  Unmarshal :: "string \<Rightarrow> ConnParams \<Rightarrow> ConnParams option"
  InitLoad_ok :: "string \<Rightarrow> ConnParams \<Rightarrow> bool"
  WConf_reloaded_ok :: bool
  Join_tmp_conf :: "string \<Rightarrow> string"

text \<open>
  The local variables of \<open>LaunchConfProvider\<close>, and a log of the arguments of every
  call of \<open>start\<close>.
\<close>

record conf_provider =
  confdir :: string
  params :: ConnParams
  cancel :: bool
  start_calls :: "(string \<times> ConnParams) list"

definition new_conf_provider :: conf_provider where
  "new_conf_provider = \<lparr>confdir = [], params = zero_ConnParams, cancel = False, start_calls = []\<rparr>"

text \<open>A command either lets the loop go on or makes the function return (with or without error).\<close>

datatype conf_outcome = Continue | ReturnNil | ReturnErr

text \<open>\<open>start\<close>: fails on an empty directory, else as the environment decides.\<close>

definition start :: "conf_env \<Rightarrow> string \<Rightarrow> ConnParams \<Rightarrow> bool" where
  "start env cdir ps = (if length cdir = 0 then False else InitLoad_ok env cdir ps)"

definition cmd_start :: "conf_env \<Rightarrow> conf_provider \<Rightarrow> conf_provider \<times> conf_outcome" where
  "cmd_start env st =
     (let st1 = st\<lparr>start_calls := start_calls st @ [(confdir st, params st)]\<rparr>
      in if start env (confdir st) (params st) then (st1\<lparr>cancel := True\<rparr>, Continue)
         else (st1\<lparr>cancel := False\<rparr>, ReturnErr))"

definition cmd_reload :: "conf_env \<Rightarrow> conf_provider \<Rightarrow> conf_provider \<times> conf_outcome" where
  "cmd_reload env st =
     (let st1 = st\<lparr>start_calls := start_calls st @ [(confdir st, params st)]\<rparr>
      in if start env (confdir st) (params st)
         then (st1\<lparr>cancel := True\<rparr>, if WConf_reloaded_ok env then Continue else ReturnErr)
         else (st1, Continue))"

text \<open>
  The \<open>consulparams\<close> branch as written in services/configuration.go: the payload is
  unmarshalled into \<open>params\<close>, and on success \<open>params\<close> is overwritten with the fresh
  \<open>newparams\<close>.
\<close>

definition cmd_consulparams :: "conf_env \<Rightarrow> conf_provider \<Rightarrow> string list \<Rightarrow> conf_provider \<times> conf_outcome" where
  "cmd_consulparams env st parts =
     (if length parts = 2 then
        (let newparams = zero_ConnParams
         in case Unmarshal env (parts ! 1) (params st) of
              Some unmarshalled \<Rightarrow> (st\<lparr>params := newparams\<rparr>, Continue)
            | None \<Rightarrow> (st, ReturnErr))
      else (st, ReturnErr))"

text \<open>
  The same branch in the other copy of \<open>LaunchConfProvider\<close> (package services, with the
  \<open>confined\<close> parameter): the payload is unmarshalled into \<open>newparams\<close>.
\<close>

definition cmd_consulparams_confined :: "conf_env \<Rightarrow> conf_provider \<Rightarrow> string list \<Rightarrow> conf_provider \<times> conf_outcome" where
  "cmd_consulparams_confined env st parts =
     (if length parts = 2 then
        (let newparams = zero_ConnParams
         in case Unmarshal env (parts ! 1) newparams of
              Some unmarshalled \<Rightarrow> (st\<lparr>params := unmarshalled\<rparr>, Continue)
            | None \<Rightarrow> (st, ReturnErr))
      else (st, ReturnErr))"

text \<open>One iteration of the scanner loop of \<open>LaunchConfProvider\<close> (services/configuration.go).\<close>

definition conf_command :: "conf_env \<Rightarrow> conf_provider \<Rightarrow> string \<Rightarrow> conf_provider \<times> conf_outcome" where
  "conf_command env st text =
     (let parts = SplitN2 text; command = parts ! 0
      in if command = ''start'' then cmd_start env st
         else if command = ''reload'' then cmd_reload env st
         else if command = ''confdir'' then
           (if length parts = 2 then (st\<lparr>confdir := TrimSpace (parts ! 1)\<rparr>, Continue)
            else (st, ReturnErr))
         else if command = ''consulparams'' then cmd_consulparams env st parts
         else if command = ''stop'' then (st, ReturnNil)
         else (st, ReturnErr))"

text \<open>The same iteration in the copy with the \<open>confined\<close> parameter.\<close>

definition conf_command_confined :: "conf_env \<Rightarrow> bool \<Rightarrow> conf_provider \<Rightarrow> string \<Rightarrow> conf_provider \<times> conf_outcome" where
  "conf_command_confined env confined st text =
     (let parts = SplitN2 text; command = parts ! 0
      in if command = ''start'' then cmd_start env st
         else if command = ''reload'' then cmd_reload env st
         else if command = ''confdir'' then
           (if length parts = 2 then
              (let cdir = TrimSpace (parts ! 1)
               in (st\<lparr>confdir := (if confined then Join_tmp_conf env cdir else cdir)\<rparr>, Continue))
            else (st, ReturnErr))
         else if command = ''consulparams'' then cmd_consulparams_confined env st parts
         else if command = ''stop'' then (st, ReturnNil)
         else (st, ReturnErr))"

text \<open>
  The loops: the commands delivered by the scanner, until one makes the function return;
  when the input ends the function returns \<open>scanner.Err()\<close>, taken to be nil.
\<close>

fun LaunchConfProvider :: "conf_env \<Rightarrow> conf_provider \<Rightarrow> string list \<Rightarrow> conf_provider \<times> conf_outcome" where
  "LaunchConfProvider env st [] = (st, ReturnNil)"
| "LaunchConfProvider env st (text # rest) =
     (case conf_command env st text of
        (st', Continue) \<Rightarrow> LaunchConfProvider env st' rest
      | (st', out) \<Rightarrow> (st', out))"

fun LaunchConfProvider_confined ::
  "conf_env \<Rightarrow> bool \<Rightarrow> conf_provider \<Rightarrow> string list \<Rightarrow> conf_provider \<times> conf_outcome" where
  "LaunchConfProvider_confined env confined st [] = (st, ReturnNil)"
| "LaunchConfProvider_confined env confined st (text # rest) =
     (case conf_command_confined env confined st text of
        (st', Continue) \<Rightarrow> LaunchConfProvider_confined env confined st' rest
      | (st', out) \<Rightarrow> (st', out))"

text \<open>
  A decoder for payloads of the form \<open>{"Address":"..."}\<close>, as \<open>json.Unmarshal\<close> treats
  them: the field named in the payload is set, the rest of the target is kept; any other
  payload is refused. It is used to run the provider on concrete commands.
\<close>

definition address_prefix :: string where
  "address_prefix = ''{'' @ [CHR 0x22] @ ''Address'' @ [CHR 0x22] @ '':'' @ [CHR 0x22]"

definition address_suffix :: string where
  "address_suffix = [CHR 0x22] @ ''}''"

definition unmarshal_address :: "string \<Rightarrow> ConnParams \<Rightarrow> ConnParams option" where
  "unmarshal_address data v =
     (let n = length data; a = length address_prefix; b = length address_suffix
      in if a + b \<le> n \<and> take a data = address_prefix \<and> drop (n - b) data = address_suffix
            \<and> CHR 0x22 \<notin> set (take (n - a - b) (drop a data))
         then Some (v\<lparr>Address := take (n - a - b) (drop a data)\<rparr>)
         else None)"

definition address_env :: conf_env where
  "address_env = \<lparr>Unmarshal = unmarshal_address, InitLoad_ok = (\<lambda>cdir ps. True),
                   WConf_reloaded_ok = True, Join_tmp_conf = (\<lambda>cdir. ''/tmp/conf/'' @ cdir)\<rparr>"

definition consulparams_command :: string where
  "consulparams_command = ''consulparams '' @ address_prefix @ ''consul:8500'' @ address_suffix"

subsection \<open>The ring buffer (utils/queue/rawtcp.go)\<close>

type_synonym u64 = "64 word"

text \<open>
  Modelled from the spec: \<open>roundUp\<close> is called by \<open>RawTCPRing.init\<close> but is not
  among the sources at hand. The spec sizes the queue "to the next power of two \<open>\<ge>\<close>
  requested capacity"; \<open>next_pow2\<close> computes that number, and \<open>roundUp\<close> is its value in
  64 bits.
\<close>

fun next_pow2 :: "nat \<Rightarrow> nat" where
  "next_pow2 n = (if n \<le> 1 then 1 else 2 * next_pow2 ((n + 1) div 2))"

declare next_pow2.simps [simp del]

definition roundUp :: "u64 \<Rightarrow> u64" where
  "roundUp v = of_nat (next_pow2 (unat v))"

text \<open>A node holds its sequence number and an item (\<open>None\<close> for a nil pointer).\<close>

record 'a rawtcpnode =
  position :: u64
  data :: "'a option"

record 'a RawTCPRing =
  queue :: u64
  dequeue :: u64
  mask :: u64
  disposed :: u64
  nodes :: "'a rawtcpnode list"

text \<open>\<open>RawTCPRing.init\<close> on the zero value of the struct, that is \<open>NewRawTCPRing\<close>.\<close>

definition NewRawTCPRing :: "u64 \<Rightarrow> 'a RawTCPRing" where
  "NewRawTCPRing requested =
     (let size' = roundUp requested
      in \<lparr>queue = 0, dequeue = 0, mask = size' - 1, disposed = 0,
          nodes = map (\<lambda>i. \<lparr>position = of_nat i, data = None\<rparr>) [0 ..< unat size']\<rparr>)"

definition Len :: "'a RawTCPRing \<Rightarrow> u64" where
  "Len rb = queue rb - dequeue rb"

definition Cap :: "'a RawTCPRing \<Rightarrow> u64" where
  "Cap rb = of_nat (length (nodes rb))"

text \<open>\<open>Dispose\<close>: a compare-and-swap of \<open>disposed\<close> from 0 to 1.\<close>

definition Dispose :: "'a RawTCPRing \<Rightarrow> 'a RawTCPRing" where
  "Dispose rb = (if disposed rb = 0 then rb\<lparr>disposed := 1\<rparr> else rb)"


text \<open>
  What a call can come back with: \<open>(true, nil)\<close>, \<open>(false, nil)\<close> (an offer on a full
  ring), \<open>ErrDisposed\<close>, or a panic (an index out of range; the test \<open>dif < 0\<close> of the
  source is on an unsigned number and never holds).
\<close>

datatype put_result = PutOk | PutFull | PutDisposed | PutPanic

text \<open>
  One iteration of the loop of \<open>RawTCPRing.put\<close>, from the local \<open>pos\<close>: either the call
  returns (\<open>Inl\<close>, with the ring as it leaves it), or the loop goes round again with a
  new \<open>pos\<close> (\<open>Inr\<close>). The compare-and-swap succeeds when \<open>rb.queue\<close> still is \<open>pos\<close>.
  The back-off (\<open>runtime.Gosched\<close>, \<open>time.Sleep\<close>) changes nothing of the ring and is left
  out.
\<close>

definition put_iter :: "'a RawTCPRing \<Rightarrow> 'a \<Rightarrow> bool \<Rightarrow> u64 \<Rightarrow> ('a RawTCPRing \<times> put_result) + u64" where
  "put_iter rb item offer pos =
     (if disposed rb = 1 then Inl (rb, PutDisposed)
      else let i = unat (pos AND mask rb)
           in if \<not> i < length (nodes rb) then Inl (rb, PutPanic)
              else let seq = position (nodes rb ! i); dif = seq - pos
                   in if dif = 0 \<and> queue rb = pos
                      then Inl (rb\<lparr>queue := pos + 1,
                                   nodes := (nodes rb)[i := \<lparr>position = pos + 1, data = Some item\<rparr>]\<rparr>,
                                PutOk)
                      else let pos' = (if dif = 0 then pos else queue rb)
                           in if offer then Inl (rb, PutFull) else Inr pos')"

text \<open>
  The loop, for a caller that runs alone: the fuel bounds the number of iterations, and
  \<open>None\<close> says the call has not returned within them.
\<close>

fun put_loop :: "nat \<Rightarrow> 'a RawTCPRing \<Rightarrow> 'a \<Rightarrow> bool \<Rightarrow> u64 \<Rightarrow> ('a RawTCPRing \<times> put_result) option" where
  "put_loop 0 rb item offer pos = None"
| "put_loop (Suc fuel) rb item offer pos =
     (case put_iter rb item offer pos of
        Inl r \<Rightarrow> Some r
      | Inr pos' \<Rightarrow> put_loop fuel rb item offer pos')"

definition put :: "nat \<Rightarrow> 'a RawTCPRing \<Rightarrow> 'a \<Rightarrow> bool \<Rightarrow> ('a RawTCPRing \<times> put_result) option" where
  "put fuel rb item offer = put_loop fuel rb item offer (queue rb)"

definition Put :: "nat \<Rightarrow> 'a RawTCPRing \<Rightarrow> 'a \<Rightarrow> ('a RawTCPRing \<times> put_result) option" where
  "Put fuel rb item = put fuel rb item False"

definition Offer :: "nat \<Rightarrow> 'a RawTCPRing \<Rightarrow> 'a \<Rightarrow> ('a RawTCPRing \<times> put_result) option" where
  "Offer fuel rb item = put fuel rb item True"

datatype 'a get_result = GetOk "'a option" | GetTimeout | GetDisposed | GetPanic

text \<open>
  One iteration of the loop of \<open>RawTCPRing.Poll\<close>. \<open>since\<close> is what \<open>time.Since(start)\<close>
  reads in this iteration; durations are counted in nanoseconds.
\<close>

definition poll_iter :: "'a RawTCPRing \<Rightarrow> int \<Rightarrow> int \<Rightarrow> u64 \<Rightarrow> ('a RawTCPRing \<times> 'a get_result) + u64" where
  "poll_iter rb timeout since pos =
     (let i = unat (pos AND mask rb)
      in if \<not> i < length (nodes rb) then Inl (rb, GetPanic)
         else let n = nodes rb ! i; seq = position n; dif = seq - (pos + 1)
              in if dif = 0 \<and> dequeue rb = pos
                 then Inl (rb\<lparr>dequeue := pos + 1,
                              nodes := (nodes rb)[i := \<lparr>position = pos + mask rb + 1, data = None\<rparr>]\<rparr>,
                           GetOk (data n))
                 else let pos' = (if dif = 0 then pos else dequeue rb)
                      in if timeout > 0 \<and> since \<ge> timeout then Inl (rb, GetTimeout)
                         else if disposed rb = 1 then Inl (rb, GetDisposed)
                         else Inr pos')"

text \<open>The loop; \<open>clock k\<close> is the reading of \<open>time.Since(start)\<close> in iteration \<open>k\<close>.\<close>

fun poll_loop :: "nat \<Rightarrow> 'a RawTCPRing \<Rightarrow> int \<Rightarrow> (nat \<Rightarrow> int) \<Rightarrow> nat \<Rightarrow> u64 \<Rightarrow> ('a RawTCPRing \<times> 'a get_result) option" where
  "poll_loop 0 rb timeout clock k pos = None"
| "poll_loop (Suc fuel) rb timeout clock k pos =
     (case poll_iter rb timeout (clock k) pos of
        Inl r \<Rightarrow> Some r
      | Inr pos' \<Rightarrow> poll_loop fuel rb timeout clock (Suc k) pos')"

definition Poll :: "nat \<Rightarrow> 'a RawTCPRing \<Rightarrow> int \<Rightarrow> (nat \<Rightarrow> int) \<Rightarrow> ('a RawTCPRing \<times> 'a get_result) option" where
  "Poll fuel rb timeout clock = poll_loop fuel rb timeout clock 0 (dequeue rb)"

definition Get :: "nat \<Rightarrow> 'a RawTCPRing \<Rightarrow> (nat \<Rightarrow> int) \<Rightarrow> ('a RawTCPRing \<times> 'a get_result) option" where
  "Get fuel rb clock = Poll fuel rb 0 clock"

text \<open>
  The state of a ring between calls, as the algorithm keeps it: the capacity is a power
  of two with \<open>mask\<close> one less, \<open>disposed\<close> is 0 or 1, no more items are in the ring
  than it has nodes, and
  counting from \<open>dequeue\<close> the first \<open>Len\<close> nodes are filled (sequence number one past
  their position) and the others are free (sequence number equal to their position).
\<close>

definition ring_inv :: "'a RawTCPRing \<Rightarrow> bool" where
  "ring_inv rb \<longleftrightarrow>
     (\<exists>k \<le> 63. length (nodes rb) = 2 ^ k \<and> mask rb = 2 ^ k - 1)
     \<and> disposed rb \<le> 1
     \<and> unat (Len rb) \<le> length (nodes rb)
     \<and> (\<forall>j < length (nodes rb).
           position (nodes rb ! unat ((dequeue rb + of_nat j) AND mask rb)) =
             (if j < unat (Len rb) then dequeue rb + of_nat j + 1 else dequeue rb + of_nat j))"

text \<open>
  Calls made one after the other on a ring. Every call has its own fuel and clock; a
  call that does not return within its fuel leaves the ring as it found it.
\<close>

datatype 'a ring_op =
    OpPut nat 'a
  | OpOffer nat 'a
  | OpGet nat "nat \<Rightarrow> int"
  | OpPoll nat int "nat \<Rightarrow> int"
  | OpDispose

definition after_call :: "'a RawTCPRing \<Rightarrow> ('a RawTCPRing \<times> 'r) option \<Rightarrow> 'a RawTCPRing" where
  "after_call rb r = (case r of None \<Rightarrow> rb | Some (rb', res) \<Rightarrow> rb')"

fun ring_step :: "'a RawTCPRing \<Rightarrow> 'a ring_op \<Rightarrow> 'a RawTCPRing" where
  "ring_step rb (OpPut fuel item) = after_call rb (Put fuel rb item)"
| "ring_step rb (OpOffer fuel item) = after_call rb (Offer fuel rb item)"
| "ring_step rb (OpGet fuel clock) = after_call rb (Get fuel rb clock)"
| "ring_step rb (OpPoll fuel timeout clock) = after_call rb (Poll fuel rb timeout clock)"
| "ring_step rb OpDispose = Dispose rb"

definition ring_run :: "'a RawTCPRing \<Rightarrow> 'a ring_op list \<Rightarrow> 'a RawTCPRing" where
  "ring_run rb ops = foldl ring_step rb ops"


subsection \<open>The TCP frame splitter (package network, with the older copy of package server)\<close>

text \<open>
  Byte slices are strings. The helpers below are the functions of the Go standard library
  that \<open>TcpSplit\<close> calls, with the cut set \<open>" \r\n"\<close> it passes to them. \<open>bytes.Trim\<close>
  returns nil when nothing is left, which is \<open>None\<close> here.
\<close>

definition LF :: char where
  "LF = CHR 0x0A"

definition CR :: char where
  "CR = CHR 0x0D"

definition in_cutset :: "char \<Rightarrow> bool" where
  "in_cutset c = (c = CHR '' '' \<or> c = CR \<or> c = LF)"

definition TrimLeft :: "string \<Rightarrow> string" where
  "TrimLeft s = dropWhile in_cutset s"

definition trim_both :: "string \<Rightarrow> string" where
  "trim_both s = rev (dropWhile in_cutset (rev (dropWhile in_cutset s)))"

definition Trim :: "string \<Rightarrow> string option" where
  "Trim s = (if trim_both s = [] then None else Some (trim_both s))"

text \<open>\<open>bytes.IndexByte\<close> and \<open>bytes.IndexAny\<close>: the first index, or -1.\<close>

definition IndexByte :: "string \<Rightarrow> char \<Rightarrow> int" where
  "IndexByte s c = (if c \<in> set s then int (length (takeWhile (\<lambda>x. x \<noteq> c) s)) else - 1)"

definition IndexAny :: "string \<Rightarrow> string \<Rightarrow> int" where
  "IndexAny s chars =
     (if list_ex (\<lambda>x. x \<in> set chars) s then int (length (takeWhile (\<lambda>x. x \<notin> set chars) s))
      else - 1)"

text \<open>
  The slice expression \<open>s[lo:hi]\<close>: it panics (\<open>None\<close>) unless \<open>0 \<le> lo \<le> hi\<close> and
  \<open>hi\<close> is within the slice.
\<close>

definition slice :: "string \<Rightarrow> int \<Rightarrow> int \<Rightarrow> string option" where
  "slice s lo hi =
     (if 0 \<le> lo \<and> lo \<le> hi \<and> hi \<le> int (length s)
      then Some (take (nat (hi - lo)) (drop (nat lo) s)) else None)"

text \<open>Go's \<open>int\<close> has 64 bits; sums wrap around.\<close>

definition wrap64 :: "int \<Rightarrow> int" where
  "wrap64 x = (x + 2 ^ 63) mod 2 ^ 64 - 2 ^ 63"

text \<open>
  \<open>strconv.Atoi\<close>: an optional sign, then one or more decimal digits, a value that fits
  64 bits; anything else is an error (\<open>None\<close>).
\<close>

definition isDigit :: "char \<Rightarrow> bool" where
  "isDigit c = (48 \<le> (of_char c :: nat) \<and> (of_char c :: nat) \<le> 57)"

definition digits_value :: "string \<Rightarrow> int" where
  "digits_value ds = foldl (\<lambda>n c. n * 10 + (int (of_char c) - 48)) 0 ds"

definition Atoi :: "string \<Rightarrow> int option" where
  "Atoi s =
     (let neg = (s \<noteq> [] \<and> hd s = CHR ''-'');
          ds = (if s \<noteq> [] \<and> (hd s = CHR ''-'' \<or> hd s = CHR ''+'') then tl s else s)
      in if ds = [] \<or> \<not> list_all isDigit ds then None
         else let n = (if neg then - digits_value ds else digits_value ds)
              in if - (2 ^ 63) \<le> n \<and> n < 2 ^ 63 then Some n else None)"

text \<open>
  What a split function returns: \<open>advance\<close>, the token (\<open>None\<close> for nil) and whether the
  error is \<open>io.EOF\<close> (the only error this splitter returns); or it panics.
\<close>

datatype split_result = Ret int "string option" bool | SplitPanic

text \<open>\<open>getline\<close> of package network.\<close>

definition getline :: "string \<Rightarrow> int \<Rightarrow> bool \<Rightarrow> split_result" where
  "getline bytes trimmed eoferr =
     (let lf = IndexByte bytes LF
      in if lf = 0 then Ret 0 None eoferr
         else case slice bytes 0 lf of
                None \<Rightarrow> SplitPanic
              | Some line \<Rightarrow> Ret (wrap64 (lf + trimmed + 1)) (Trim line) False)"

text \<open>\<open>TcpSplit\<close> of package network.\<close>

definition TcpSplit :: "string \<Rightarrow> bool \<Rightarrow> split_result" where
  "TcpSplit bytes atEOF =
     (let eoferr = atEOF;
          trimmedData = TrimLeft bytes
      in if length trimmedData = 0 then Ret 0 None eoferr
         else let trimmed = int (length bytes) - int (length trimmedData)
              in if hd trimmedData = CHR ''<'' then getline trimmedData trimmed eoferr
                 else let sp = IndexAny trimmedData ('' '' @ [LF])
                      in if sp \<le> 0 then Ret 0 None eoferr
                         else let datalenStr = (case slice trimmedData 0 sp of
                                                  None \<Rightarrow> [] | Some t \<Rightarrow> trim_both t)
                              in case Atoi datalenStr of
                                   None \<Rightarrow> getline trimmedData trimmed eoferr
                                 | Some datalen \<Rightarrow>
                                     let advance = wrap64 (trimmed + sp + 1 + datalen)
                                     in if int (length bytes) < advance then Ret 0 None eoferr
                                        else case slice trimmedData (sp + 1) (wrap64 (sp + 1 + datalen)) of
                                               None \<Rightarrow> SplitPanic
                                             | Some t \<Rightarrow> Ret advance (Trim t) False)"

text \<open>
  \<open>TcpSplit\<close> of the older package server: no fall-back, the error of \<open>strconv.Atoi\<close> is
  returned. The result is \<open>Inl\<close> for that error, and never an end-of-file error.
\<close>

definition TcpSplit_server :: "string \<Rightarrow> bool \<Rightarrow> unit + split_result" where
  "TcpSplit_server bytes atEOF =
     (let trimmed_data = TrimLeft bytes
      in if length trimmed_data = 0 then Inr (Ret 0 None False)
         else let trimmed = int (length bytes) - int (length trimmed_data)
              in if hd trimmed_data = CHR ''<'' then
                   (let lf = IndexByte trimmed_data LF
                    in if lf \<ge> 0 then
                         (case slice trimmed_data 0 lf of
                            None \<Rightarrow> Inr SplitPanic
                          | Some line \<Rightarrow> Inr (Ret (wrap64 (trimmed + lf + 1)) (Trim line) False))
                       else Inr (Ret 0 None False))
                 else let sp = IndexAny trimmed_data ('' '' @ [LF])
                      in if sp \<le> 0 then Inr (Ret 0 None False)
                         else let datalen_s = (case slice trimmed_data 0 sp of
                                                 None \<Rightarrow> [] | Some t \<Rightarrow> trim_both t)
                              in case Atoi datalen_s of
                                   None \<Rightarrow> Inl ()
                                 | Some datalen \<Rightarrow>
                                     let advance = wrap64 (trimmed + sp + 1 + datalen)
                                     in if int (length bytes) \<ge> advance then
                                          (case slice trimmed_data (sp + 1) (wrap64 (sp + 1 + datalen)) of
                                             None \<Rightarrow> Inr SplitPanic
                                           | Some t \<Rightarrow> Inr (Ret advance (Trim t) False))
                                        else Inr (Ret 0 None False))"

text \<open>
  The split function that \<open>makeLFTCPSplit(delimiter)\<close> returns, used when line framing is
  configured; \<open>delim\<close> is the first byte of the delimiter.
\<close>

definition LFTCPSplit :: "char \<Rightarrow> string \<Rightarrow> bool \<Rightarrow> split_result" where
  "LFTCPSplit delim bytes atEOF =
     (let eoferr = atEOF;
          trimmedData = TrimLeft bytes
      in if length trimmedData = 0 then Ret 0 None eoferr
         else let trimmed = int (length bytes) - int (length trimmedData);
                  lf = IndexByte trimmedData delim
              in if lf < 1 then Ret 0 None eoferr
                 else case slice trimmedData 0 lf of
                        None \<Rightarrow> SplitPanic
                      | Some line \<Rightarrow> Ret (wrap64 (trimmed + lf + 1)) (Trim line) False)"

subsection \<open>The handler of a TCP connection (\<open>tcpHandler.HandleConnection\<close>)\<close>

text \<open>
  The handler reads frames with a \<open>bufio.Scanner\<close> of the Go standard library. The model
  of the scanner follows \<open>Scanner.Scan\<close>: a buffer with the window \<open>start..end\<close> of
  unconsumed bytes, the largest size the buffer may grow to, the sticky error, and the
  last token. The connection is the list of what its successive \<open>Read\<close> calls will
  deliver: some bytes or an error; the empty list is the end of the stream.
\<close>

datatype scan_err = EOF | ErrTooLong | ErrNegativeAdvance | ErrAdvanceTooFar | ErrNoProgress | ReadErr

datatype read_event = Bytes string | ReadError

record scanner =
  s_buf :: string
  s_start :: nat
  s_end :: nat
  s_maxTokenSize :: int
  s_err :: "scan_err option"
  s_token :: "string option"
  s_empties :: nat
  s_conn :: "read_event list"

text \<open>\<open>setErr\<close>: the first error other than end-of-file sticks.\<close>

definition setErr :: "scan_err \<Rightarrow> scanner \<Rightarrow> scanner" where
  "setErr e s = (if s_err s = None \<or> s_err s = Some EOF then s\<lparr>s_err := Some e\<rparr> else s)"

text \<open>
  \<open>bufio.NewScanner(conn)\<close> followed by \<open>scanner.Buffer(make([]byte, 0, max), max)\<close>:
  the buffer is the whole capacity of the slice.
\<close>

definition NewScanner_Buffer :: "nat \<Rightarrow> read_event list \<Rightarrow> scanner" where
  "NewScanner_Buffer maxSize c =
     \<lparr>s_buf = replicate maxSize (CHR 0x00), s_start = 0, s_end = 0, s_maxTokenSize = int maxSize,
      s_err = None, s_token = None, s_empties = 0, s_conn = c\<rparr>"

text \<open>
  The loop at the end of an iteration of \<open>Scan\<close> that reads from the connection into
  \<open>buf[end:]\<close>: it stops on an error, on the first bytes read, or after a hundred empty
  reads. A read with no room in the buffer can only be empty.
\<close>

fun read_loop :: "read_event list \<Rightarrow> nat \<Rightarrow> scanner \<Rightarrow> scanner" where
  "read_loop [] loop s = setErr EOF (s\<lparr>s_conn := []\<rparr>)"
| "read_loop (ReadError # rest) loop s = setErr ReadErr (s\<lparr>s_conn := rest\<rparr>)"
| "read_loop (Bytes chunk # rest) loop s =
     (let n = min (length chunk) (length (s_buf s) - s_end s)
      in if n > 0 then
           s\<lparr>s_buf := take (s_end s) (s_buf s) @ take n chunk @ drop (s_end s + n) (s_buf s),
             s_end := s_end s + n,
             s_empties := 0,
             s_conn := (if n < length chunk then Bytes (drop n chunk) # rest else rest)\<rparr>
         else if chunk \<noteq> [] then setErr ErrNoProgress s
         else if loop + 1 > 100 then setErr ErrNoProgress (s\<lparr>s_conn := rest\<rparr>)
         else read_loop rest (loop + 1) (s\<lparr>s_conn := rest\<rparr>))"

text \<open>
  The second half of an iteration of \<open>Scan\<close>, reached when no token could be produced:
  give up on a sticky error (\<open>Inl\<close>: \<open>Scan\<close> returns false), else make room (move the
  window to the front; when the buffer is full, fail with \<open>ErrTooLong\<close> if it has reached
  its largest size, otherwise double it) and read (\<open>Inr\<close>: go round again).
\<close>

definition startBufSize :: nat where
  "startBufSize = 4096"

definition fill :: "scanner \<Rightarrow> scanner + scanner" where
  "fill s =
     (if s_err s \<noteq> None then Inl (s\<lparr>s_start := 0, s_end := 0\<rparr>)
      else let s1 = (if s_start s > 0 \<and> (s_end s = length (s_buf s) \<or> s_start s > length (s_buf s) div 2)
                     then s\<lparr>s_buf := take (s_end s - s_start s) (drop (s_start s) (s_buf s))
                                      @ drop (s_end s - s_start s) (s_buf s),
                            s_end := s_end s - s_start s, s_start := 0\<rparr>
                     else s)
           in if s_end s1 = length (s_buf s1) then
                (if int (length (s_buf s1)) \<ge> s_maxTokenSize s1 then Inl (setErr ErrTooLong s1)
                 else let newSize = (if length (s_buf s1) * 2 = 0 then startBufSize
                                     else length (s_buf s1) * 2);
                          newSize' = (if int newSize > s_maxTokenSize s1 then nat (s_maxTokenSize s1)
                                      else newSize);
                          s2 = s1\<lparr>s_buf := take (s_end s1 - s_start s1) (drop (s_start s1) (s_buf s1))
                                           @ replicate (newSize' - (s_end s1 - s_start s1)) (CHR 0x00),
                                  s_end := s_end s1 - s_start s1, s_start := 0\<rparr>
                      in Inr (read_loop (s_conn s2) 0 s2))
              else Inr (read_loop (s_conn s1) 0 s1))"

datatype scan_result = ScanTrue | ScanFalse | ScanPanic

text \<open>
  \<open>Scanner.Scan\<close> with the split function \<open>split\<close>. The fuel bounds the iterations of
  its loop; \<open>None\<close> says it has not returned within them. A panic of the split function
  goes through \<open>Scan\<close> to the caller.
\<close>

fun Scan :: "nat \<Rightarrow> (string \<Rightarrow> bool \<Rightarrow> split_result) \<Rightarrow> scanner \<Rightarrow> (scanner \<times> scan_result) option" where
  "Scan 0 split s = None"
| "Scan (Suc fuel) split s =
     (if s_end s > s_start s \<or> s_err s \<noteq> None then
        (case split (take (s_end s - s_start s) (drop (s_start s) (s_buf s))) (s_err s \<noteq> None) of
           SplitPanic \<Rightarrow> Some (s, ScanPanic)
         | Ret advance token err \<Rightarrow>
             if err then Some (setErr EOF s, ScanFalse)
             else if advance < 0 then Some (setErr ErrNegativeAdvance s, ScanFalse)
             else if advance > int (s_end s - s_start s) then Some (setErr ErrAdvanceTooFar s, ScanFalse)
             else let s1 = s\<lparr>s_start := s_start s + nat advance, s_token := token\<rparr>
                  in (case token of
                        Some t \<Rightarrow>
                          if s_err s1 = None \<or> advance > 0 then Some (s1\<lparr>s_empties := 0\<rparr>, ScanTrue)
                          else if s_empties s1 + 1 > 100 then Some (s1\<lparr>s_empties := s_empties s1 + 1\<rparr>, ScanPanic)
                          else Some (s1\<lparr>s_empties := s_empties s1 + 1\<rparr>, ScanTrue)
                      | None \<Rightarrow>
                          (case fill s1 of Inl s2 \<Rightarrow> Some (s2, ScanFalse) | Inr s2 \<Rightarrow> Scan fuel split s2)))
      else (case fill s of Inl s2 \<Rightarrow> Some (s2, ScanFalse) | Inr s2 \<Rightarrow> Scan fuel split s2))"

text \<open>
  A raw message, as the handler fills it in, and the part of the TCP service and of the
  configuration of the source that the handler uses.
\<close>

record 'd RawTcpMessage =
  Message :: string
  Client :: string
  LocalPort :: int
  UnixSocketPath :: string
  ConfID :: MyULID
  Decoder :: 'd

record 'd TcpServiceImpl =
  MaxMessageSize :: int
  rawMessagesQueue :: "'d RawTcpMessage RawTCPRing"
  IncomingMsgsCounter :: nat

record 'd TCPSourceConfig =
  LineFraming :: bool
  FrameDelimiter :: string
  cfg_ConfID :: MyULID
  DecoderBaseConfig :: 'd

text \<open>What the handler knows of the peer: \<open>client\<close>, \<open>localPortInt\<close> and \<open>path\<close>.\<close>

record peer =
  client :: string
  localPortInt :: int
  path :: string

text \<open>How the handler comes to return; in every case the connection is then closed.\<close>

datatype handler_end = ScanEnded | MessageTooLarge | QueueDisposed | Panicked

text \<open>
  The loop \<open>for scanner.Scan() { ... }\<close> of \<open>HandleConnection\<close>. The first fuel bounds
  the frames handled, the second the iterations inside one \<open>Scan\<close> or one \<open>Put\<close>;
  \<open>None\<close> says the handler has not returned (it waits on a full queue, or is out of fuel).
\<close>

fun handle_frames ::
  "nat \<Rightarrow> nat \<Rightarrow> (string \<Rightarrow> bool \<Rightarrow> split_result) \<Rightarrow> 'd TCPSourceConfig \<Rightarrow> peer
     \<Rightarrow> 'd TcpServiceImpl \<Rightarrow> scanner \<Rightarrow> ('d TcpServiceImpl \<times> scanner \<times> handler_end) option" where
  "handle_frames 0 fuel split config p s scanner = None"
| "handle_frames (Suc frames) fuel split config p s scanner =
     (case Scan fuel split scanner of
        None \<Rightarrow> None
      | Some (scanner', ScanPanic) \<Rightarrow> Some (s, scanner', Panicked)
      | Some (scanner', ScanFalse) \<Rightarrow> Some (s, scanner', ScanEnded)
      | Some (scanner', ScanTrue) \<Rightarrow>
          (let buf = (case s_token scanner' of None \<Rightarrow> [] | Some b \<Rightarrow> b)
           in if length buf = 0 then handle_frames frames fuel split config p s scanner'
              else if MaxMessageSize s > 0 \<and> int (length buf) > MaxMessageSize s
                then Some (s, scanner', MessageTooLarge)
              else let rawmsg = \<lparr>Message = buf, Client = client p, LocalPort = localPortInt p,
                                   UnixSocketPath = path p, ConfID = cfg_ConfID config,
                                   Decoder = DecoderBaseConfig config\<rparr>
                   in (case Put fuel (rawMessagesQueue s) rawmsg of
                         None \<Rightarrow> None
                       | Some (rb, PutOk) \<Rightarrow>
                           handle_frames frames fuel split config p
                             (s\<lparr>rawMessagesQueue := rb,
                                IncomingMsgsCounter := IncomingMsgsCounter s + 1\<rparr>) scanner'
                       | Some (rb, PutPanic) \<Rightarrow> Some (s, scanner', Panicked)
                       | Some (rb, other) \<Rightarrow> Some (s, scanner', QueueDisposed))))"

text \<open>
  \<open>HandleConnection\<close>: the scanner is given a buffer of \<open>MaxMessageSize\<close> bytes that may
  not grow, and the split function the configuration selects. (\<open>make\<close> panics on a
  negative capacity, and taking the first byte of an empty delimiter panics.)
\<close>

definition HandleConnection ::
  "nat \<Rightarrow> nat \<Rightarrow> 'd TCPSourceConfig \<Rightarrow> peer \<Rightarrow> 'd TcpServiceImpl \<Rightarrow> read_event list
     \<Rightarrow> ('d TcpServiceImpl \<times> handler_end) option" where
  "HandleConnection frames fuel config p s c =
     (if MaxMessageSize s < 0 then Some (s, Panicked)
      else if LineFraming config \<and> FrameDelimiter config = [] then Some (s, Panicked)
      else let scanner = NewScanner_Buffer (nat (MaxMessageSize s)) c;
               split = (if LineFraming config then LFTCPSplit (hd (FrameDelimiter config))
                        else TcpSplit)
           in map_option (\<lambda>(s', scanner', e). (s', e))
                (handle_frames frames fuel split config p s scanner))"

text \<open>
  What \<open>Scan\<close> keeps true of a scanner whose buffer was set with \<open>Buffer\<close> as above:
  the window lies in the buffer, and the buffer is no larger than the largest token size.
\<close>

definition scanner_inv :: "scanner \<Rightarrow> bool" where
  "scanner_inv s \<longleftrightarrow>
     s_start s \<le> s_end s \<and> s_end s \<le> length (s_buf s) \<and> int (length (s_buf s)) \<le> s_maxTokenSize s"

text \<open>A split function whose tokens are shorter than the bytes it is given.\<close>

definition short_tokens :: "(string \<Rightarrow> bool \<Rightarrow> split_result) \<Rightarrow> bool" where
  "short_tokens split \<longleftrightarrow>
     (\<forall>bytes atEOF adv tok e. split bytes atEOF = Ret adv (Some tok) e \<longrightarrow> length tok < length bytes)"

text \<open>
  A source with \<open>max_input_message_size = 8\<close>, octet-counting or LF framing, and an
  empty queue, to run the handler on concrete connections.
\<close>

definition example_config :: "unit TCPSourceConfig" where
  "example_config = \<lparr>LineFraming = False, FrameDelimiter = [LF], cfg_ConfID = 1, DecoderBaseConfig = ()\<rparr>"

definition example_peer :: peer where
  "example_peer = \<lparr>client = ''10.0.0.1'', localPortInt = 2514, path = []\<rparr>"

definition example_service :: "unit TcpServiceImpl" where
  "example_service = \<lparr>MaxMessageSize = 8, rawMessagesQueue = NewRawTCPRing 2, IncomingMsgsCounter = 0\<rparr>"

subsection \<open>The binder (sys/binderserver.go)\<close>

text \<open>
  A connection held by the binder: which Go type it has, and an identity. A file is the
  \<open>*os.File\<close> obtained from \<open>conn.File()\<close>, whose descriptor is passed to the child.
\<close>

datatype conn_type = UnixConn | TCPConn | UDPConn

record net_conn =
  conn_type :: conn_type
  conn_id :: nat

type_synonym os_file = nat

text \<open>
  \<open>BinderConn\<close> and \<open>BinderPacketConn\<close>, the messages of the channels \<open>schan\<close> and
  \<open>pchan\<close>; \<open>Conn = None\<close> is the nil connection of a request to close.
\<close>

record BinderConn =
  Uid :: string
  Conn :: "net_conn option"
  Addr :: string

record BinderPacketConn =
  pUid :: string
  pConn :: "net_conn option"
  pAddr :: string

text \<open>
  What the goroutine that owns the connection tables receives: a message on \<open>schan\<close> or
  on \<open>pchan\<close>, each with the result that \<open>conn.File()\<close> will have if it is called
  (\<open>None\<close> for an error), or the cancellation of the context.
\<close>

datatype binder_event =
    FromSchan BinderConn "os_file option"
  | FromPchan BinderPacketConn "os_file option"
  | CtxDone

text \<open>
  The three tables of the goroutine, what it has written to the child
  (\<open>newconn <uid> <addr>\<close>, with the descriptor attached), the connections and files it has
  closed, and whether it still runs (it stops on \<open>CtxDone\<close> and on a failed type
  assertion, which panics).
\<close>

record binder_tables =
  connections :: "string \<rightharpoonup> net_conn"
  packetconnections :: "string \<rightharpoonup> net_conn"
  connfiles :: "string \<rightharpoonup> os_file"
  newconn_sent :: "(string \<times> string \<times> os_file) list"
  closed_conns :: "net_conn set"
  closed_files :: "os_file set"
  running :: bool


text \<open>\<open>strings.SplitN(addr, ":", 2)[0]\<close>.\<close>

definition lnet_of :: "string \<Rightarrow> string" where
  "lnet_of addr = takeWhile (\<lambda>c. c \<noteq> CHR '':'') addr"

text \<open>The branch \<open>case bc := <-schan\<close>.\<close>

definition on_schan :: "binder_tables \<Rightarrow> BinderConn \<Rightarrow> os_file option \<Rightarrow> binder_tables" where
  "on_schan t bc file =
     (case Conn bc of
        None \<Rightarrow>
          if length (Uid bc) = 0 then
            t\<lparr>closed_conns := closed_conns t \<union> ran (connections t),
              closed_files := closed_files t \<union> {f. \<exists>uid \<in> dom (connections t). connfiles t uid = Some f},
              connfiles := (\<lambda>uid. if uid \<in> dom (connections t) then None else connfiles t uid),
              connections := Map.empty\<rparr>
          else
            t\<lparr>closed_files := (case connfiles t (Uid bc) of
                                 None \<Rightarrow> closed_files t | Some f \<Rightarrow> insert f (closed_files t)),
              connfiles := (connfiles t)(Uid bc := None),
              closed_conns := (case connections t (Uid bc) of
                                 None \<Rightarrow> closed_conns t | Some c \<Rightarrow> insert c (closed_conns t)),
              connections := (connections t)(Uid bc := None)\<rparr>
      | Some c \<Rightarrow>
          if conn_type c \<noteq> (if lnet_of (Addr bc) = ''unix'' then UnixConn else TCPConn)
          then t\<lparr>running := False\<rparr>
          else (case file of
                  None \<Rightarrow> t
                | Some connFile \<Rightarrow>
                    t\<lparr>connections := (connections t)(Uid bc \<mapsto> c),
                      connfiles := (connfiles t)(Uid bc \<mapsto> connFile),
                      newconn_sent := newconn_sent t @ [(Uid bc, Addr bc, connFile)]\<rparr>))"

text \<open>The branch \<open>case bc := <-pchan\<close>.\<close>

definition on_pchan :: "binder_tables \<Rightarrow> BinderPacketConn \<Rightarrow> os_file option \<Rightarrow> binder_tables" where
  "on_pchan t bc file =
     (case pConn bc of
        None \<Rightarrow>
          if length (pUid bc) = 0 then
            t\<lparr>closed_conns := closed_conns t \<union> ran (packetconnections t),
              closed_files := closed_files t
                 \<union> {f. \<exists>uid \<in> dom (packetconnections t). connfiles t uid = Some f},
              connfiles := (\<lambda>uid. if uid \<in> dom (packetconnections t) then None else connfiles t uid),
              packetconnections := Map.empty\<rparr>
          else
            t\<lparr>closed_files := (case connfiles t (pUid bc) of
                                 None \<Rightarrow> closed_files t | Some f \<Rightarrow> insert f (closed_files t)),
              connfiles := (connfiles t)(pUid bc := None),
              closed_conns := (case packetconnections t (pUid bc) of
                                 None \<Rightarrow> closed_conns t | Some c \<Rightarrow> insert c (closed_conns t)),
              packetconnections := (packetconnections t)(pUid bc := None)\<rparr>
      | Some c \<Rightarrow>
          if conn_type c \<noteq> (if lnet_of (pAddr bc) = ''unixgram'' then UnixConn else UDPConn)
          then t\<lparr>running := False\<rparr>
          else (case file of
                  None \<Rightarrow> t
                | Some connFile \<Rightarrow>
                    t\<lparr>packetconnections := (packetconnections t)(pUid bc \<mapsto> c),
                      connfiles := (connfiles t)(pUid bc \<mapsto> connFile),
                      newconn_sent := newconn_sent t @ [(pUid bc, pAddr bc, connFile)]\<rparr>))"

text \<open>One round of the \<open>select\<close> loop of the goroutine; once it has stopped nothing happens.\<close>

definition binder_step :: "binder_tables \<Rightarrow> binder_event \<Rightarrow> binder_tables" where
  "binder_step t ev =
     (if \<not> running t then t
      else case ev of
             CtxDone \<Rightarrow> t\<lparr>closed_conns := closed_conns t \<union> ran (packetconnections t), running := False\<rparr>
           | FromPchan bc file \<Rightarrow> on_pchan t bc file
           | FromSchan bc file \<Rightarrow> on_schan t bc file)"

definition binder_run :: "binder_tables \<Rightarrow> binder_event list \<Rightarrow> binder_tables" where
  "binder_run t evs = foldl binder_step t evs"





subsection \<open>The queue of txnrs (utils/queue/int.go)\<close>

text \<open>
  \<open>IntQueue\<close>: a linked list of \<open>int32\<close> values from the stub node at \<open>tail\<close> to \<open>head\<close>,
  held here as the list of the values after the stub, oldest first, and the flag
  \<open>disposed\<close>. The values are transaction numbers, carried as integers: the code does no
  arithmetic on them.
\<close>

record IntQueue =
  items :: "int list"
  q_disposed :: bool

datatype queue_error = ErrQueueDisposed

definition NewIntQueue :: IntQueue where
  "NewIntQueue = \<lparr>items = [], q_disposed = False\<rparr>"

definition Disposed :: "IntQueue \<Rightarrow> bool" where
  "Disposed q = q_disposed q"

definition IntQueue_Dispose :: "IntQueue \<Rightarrow> IntQueue" where
  "IntQueue_Dispose q = q\<lparr>q_disposed := True\<rparr>"

definition IntQueue_Get :: "IntQueue \<Rightarrow> IntQueue \<times> int \<times> queue_error option" where
  "IntQueue_Get q =
     (if Disposed q then (q, - 1, Some ErrQueueDisposed)
      else case items q of
             next # rest \<Rightarrow> (q\<lparr>items := rest\<rparr>, next, None)
           | [] \<Rightarrow> (q, - 1, None))"

definition IntQueue_Peek :: "IntQueue \<Rightarrow> int \<times> queue_error option" where
  "IntQueue_Peek q =
     (if Disposed q then (- 1, Some ErrQueueDisposed)
      else case items q of
             next # rest \<Rightarrow> (next, None)
           | [] \<Rightarrow> (- 1, None))"

definition IntQueue_Put :: "IntQueue \<Rightarrow> int \<Rightarrow> IntQueue \<times> queue_error option" where
  "IntQueue_Put q uid =
     (if Disposed q then (q, Some ErrQueueDisposed)
      else (q\<lparr>items := items q @ [uid]\<rparr>, None))"

definition Has :: "IntQueue \<Rightarrow> bool" where
  "Has q = (items q \<noteq> [])"

text \<open>
  One round of the loop of \<open>WaitOne\<close>: \<open>Some False\<close> and \<open>Some True\<close> are its two returns,
  \<open>None\<close> is the round that sleeps and tries again.
\<close>

definition WaitOne :: "IntQueue \<Rightarrow> IntQueue \<Rightarrow> bool option" where
  "WaitOne q1 q2 =
     (if Disposed q1 \<or> Disposed q2 then Some False
      else if Has q1 \<or> Has q2 then Some True
      else None)"

subsection \<open>The forwarder of verdicts and the writer of RELP responses (services/network/directrelp.go)\<close>

text \<open>
  Modelled from the spec: the type \<open>ackForwarder\<close> and its methods are not among the
  sources at hand; only their calls in directrelp.go are. The spec keeps "a forwarder
  with three queues per connection: succ, fail, next_to_commit", which are "lock-free int
  queues"; the txnr of an incoming \<open>syslog\<close> command is recorded as pending, a verdict
  for a \<open>(conn_id, txnr)\<close> is pushed into \<open>succ\<close> or \<open>fail\<close>, and the state of a connection
  lives as long as the connection. The callers compare what \<open>GetSucc\<close>, \<open>GetFail\<close> and
  \<open>NextToCommit\<close> return with \<open>-1\<close>, the value an \<open>IntQueue\<close> returns when it is empty or
  disposed.
\<close>

record conn_queues =
  q_succ :: IntQueue
  q_fail :: IntQueue
  q_comm :: IntQueue

type_synonym ackForwarder = "MyULID \<rightharpoonup> conn_queues"

text \<open>Modelled from the spec: \<open>AddConn\<close>, for the identifier the generator gives.\<close>

definition AddConn :: "ackForwarder \<Rightarrow> MyULID \<Rightarrow> ackForwarder" where
  "AddConn f connID =
     f(connID \<mapsto> \<lparr>q_succ = NewIntQueue, q_fail = NewIntQueue, q_comm = NewIntQueue\<rparr>)"

text \<open>Modelled from the spec: \<open>RemoveConn\<close> disposes the queues of the connection and forgets them.\<close>

definition RemoveConn :: "ackForwarder \<Rightarrow> MyULID \<Rightarrow> ackForwarder" where
  "RemoveConn f connID = f(connID := None)"

text \<open>Modelled from the spec: \<open>Received\<close> records the txnr of an incoming frame as pending.\<close>

definition Received :: "ackForwarder \<Rightarrow> MyULID \<Rightarrow> int \<Rightarrow> ackForwarder" where
  "Received f connID txnr =
     (case f connID of
        None \<Rightarrow> f
      | Some q \<Rightarrow> f(connID \<mapsto> q\<lparr>q_comm := fst (IntQueue_Put (q_comm q) txnr)\<rparr>))"

text \<open>Modelled from the spec: \<open>ForwardSucc\<close> and \<open>ForwardFail\<close> push a verdict.\<close>

definition ForwardSucc :: "ackForwarder \<Rightarrow> MyULID \<Rightarrow> int \<Rightarrow> ackForwarder" where
  "ForwardSucc f connID txnr =
     (case f connID of
        None \<Rightarrow> f
      | Some q \<Rightarrow> f(connID \<mapsto> q\<lparr>q_succ := fst (IntQueue_Put (q_succ q) txnr)\<rparr>))"

definition ForwardFail :: "ackForwarder \<Rightarrow> MyULID \<Rightarrow> int \<Rightarrow> ackForwarder" where
  "ForwardFail f connID txnr =
     (case f connID of
        None \<Rightarrow> f
      | Some q \<Rightarrow> f(connID \<mapsto> q\<lparr>q_fail := fst (IntQueue_Put (q_fail q) txnr)\<rparr>))"

text \<open>Modelled from the spec: \<open>GetSucc\<close> and \<open>GetFail\<close> take the oldest verdict, or give \<open>-1\<close>.\<close>

definition GetSucc :: "ackForwarder \<Rightarrow> MyULID \<Rightarrow> ackForwarder \<times> int" where
  "GetSucc f connID =
     (case f connID of
        None \<Rightarrow> (f, - 1)
      | Some q \<Rightarrow>
          (case IntQueue_Get (q_succ q) of
             (q', txnr, err) \<Rightarrow>
               (f(connID \<mapsto> q\<lparr>q_succ := q'\<rparr>), if err \<noteq> None then - 1 else txnr)))"

definition GetFail :: "ackForwarder \<Rightarrow> MyULID \<Rightarrow> ackForwarder \<times> int" where
  "GetFail f connID =
     (case f connID of
        None \<Rightarrow> (f, - 1)
      | Some q \<Rightarrow>
          (case IntQueue_Get (q_fail q) of
             (q', txnr, err) \<Rightarrow>
               (f(connID \<mapsto> q\<lparr>q_fail := q'\<rparr>), if err \<noteq> None then - 1 else txnr)))"

text \<open>
  Modelled from the spec: \<open>NextToCommit\<close> looks at the oldest pending txnr and \<open>Commit\<close>
  takes it off, so that next-to-commit advances.
\<close>

definition NextToCommit :: "ackForwarder \<Rightarrow> MyULID \<Rightarrow> int" where
  "NextToCommit f connID =
     (case f connID of
        None \<Rightarrow> - 1
      | Some q \<Rightarrow>
          (case IntQueue_Peek (q_comm q) of
             (txnr, err) \<Rightarrow> if err \<noteq> None then - 1 else txnr))"

definition Commit :: "ackForwarder \<Rightarrow> MyULID \<Rightarrow> ackForwarder" where
  "Commit f connID =
     (case f connID of
        None \<Rightarrow> f
      | Some q \<Rightarrow> f(connID \<mapsto> q\<lparr>q_comm := fst (IntQueue_Get (q_comm q))\<rparr>))"

text \<open>
  Modelled from the spec: \<open>Wait\<close> waits for a verdict in \<open>succ\<close> or \<open>fail\<close> (one round of
  it); it gives false once the connection has been removed.
\<close>

definition Wait :: "ackForwarder \<Rightarrow> MyULID \<Rightarrow> bool option" where
  "Wait f connID =
     (case f connID of
        None \<Rightarrow> Some False
      | Some q \<Rightarrow> WaitOne (q_succ q) (q_fail q))"

text \<open>
  The result of writing a response to the client: no error, \<open>io.EOF\<close>, a \<open>net.Error\<close> that
  is a timeout, or another error. A write that returns an error is taken to have put no
  frame on the wire.
\<close>

datatype write_err = WriteOk | WriteEOF | WriteTimeout | WriteOther

text \<open>The frames \<open><txnr> rsp 6 200 OK\<close> and \<open><txnr> rsp 6 500 KO\<close>.\<close>

datatype rsp = Rsp200 int | Rsp500 int

fun rsp_txnr :: "rsp \<Rightarrow> int" where
  "rsp_txnr (Rsp200 txnr) = txnr"
| "rsp_txnr (Rsp500 txnr) = txnr"

text \<open>
  \<open>handleResponses\<close> runs beside the goroutines that feed the forwarder, so it is
  embedded as a machine that does one call on the forwarder at a time: \<open>pc\<close> says where
  it stands. Its state is the forwarder it shares, its two maps, and the frames it has
  written on the connection.
\<close>

datatype responder_pc = AtWait | AtGetSucc | AtGetFail | AtNextToCommit | AtCommit | Returned

record relp_conn =
  forwarder :: ackForwarder
  successes :: "int \<rightharpoonup> bool"
  failures :: "int \<rightharpoonup> bool"
  written :: "rsp list"
  pc :: responder_pc

text \<open>Reading a Go map of booleans: false for a key that is absent.\<close>

definition map_read :: "(int \<rightharpoonup> bool) \<Rightarrow> int \<Rightarrow> bool" where
  "map_read m k = (case m k of Some b \<Rightarrow> b | None \<Rightarrow> False)"

definition new_success :: "relp_conn \<Rightarrow> int \<Rightarrow> relp_conn" where
  "new_success s currentTxnr =
     (if currentTxnr \<noteq> - 1 then
        (if successes s currentTxnr = None \<and> failures s currentTxnr = None
         then s\<lparr>successes := (successes s)(currentTxnr \<mapsto> True)\<rparr> else s)
      else s)"

definition new_failure :: "relp_conn \<Rightarrow> int \<Rightarrow> relp_conn" where
  "new_failure s currentTxnr =
     (if currentTxnr \<noteq> - 1 then
        (if successes s currentTxnr = None \<and> failures s currentTxnr = None
         then s\<lparr>failures := (failures s)(currentTxnr \<mapsto> True)\<rparr> else s)
      else s)"

text \<open>
  What follows a write in the loop \<open>Cooking\<close>: on success the commit, on \<open>io.EOF\<close> and on
  an unexpected error the return, on a timeout another round.
\<close>

definition after_write :: "write_err \<Rightarrow> relp_conn \<Rightarrow> relp_conn" where
  "after_write err s =
     (case err of
        WriteOk \<Rightarrow> s\<lparr>pc := AtCommit\<rparr>
      | WriteEOF \<Rightarrow> s\<lparr>pc := Returned\<rparr>
      | WriteTimeout \<Rightarrow> s\<lparr>pc := AtNextToCommit\<rparr>
      | WriteOther \<Rightarrow> s\<lparr>pc := Returned\<rparr>)"

text \<open>
  One step of \<open>handleResponses\<close> for the connection \<open>connID\<close>; \<open>err\<close> is the result that a
  write has if the step makes one.
\<close>

definition handleResponses_step :: "MyULID \<Rightarrow> write_err \<Rightarrow> relp_conn \<Rightarrow> relp_conn" where
  "handleResponses_step connID err s =
     (case pc s of
        AtWait \<Rightarrow>
          (case Wait (forwarder s) connID of
             None \<Rightarrow> s
           | Some True \<Rightarrow> s\<lparr>pc := AtGetSucc\<rparr>
           | Some False \<Rightarrow> s\<lparr>pc := Returned\<rparr>)
      | AtGetSucc \<Rightarrow>
          (case GetSucc (forwarder s) connID of
             (f, currentTxnr) \<Rightarrow> (new_success (s\<lparr>forwarder := f\<rparr>) currentTxnr)\<lparr>pc := AtGetFail\<rparr>)
      | AtGetFail \<Rightarrow>
          (case GetFail (forwarder s) connID of
             (f, currentTxnr) \<Rightarrow>
               (new_failure (s\<lparr>forwarder := f\<rparr>) currentTxnr)\<lparr>pc := AtNextToCommit\<rparr>)
      | AtNextToCommit \<Rightarrow>
          (let next = NextToCommit (forwarder s) connID in
           if next = - 1 then s\<lparr>pc := AtWait\<rparr>
           else if map_read (successes s) next then
             after_write err
               (if err = WriteOk
                then s\<lparr>written := written s @ [Rsp200 next],
                       successes := (successes s)(next \<mapsto> False)\<rparr>
                else s)
           else if map_read (failures s) next then
             after_write err
               (if err = WriteOk
                then s\<lparr>written := written s @ [Rsp500 next],
                       failures := (failures s)(next \<mapsto> False)\<rparr>
                else s)
           else s\<lparr>pc := AtWait\<rparr>)
      | AtCommit \<Rightarrow> s\<lparr>forwarder := Commit (forwarder s) connID, pc := AtNextToCommit\<rparr>
      | Returned \<Rightarrow> s)"

text \<open>
  What happens around a connection, in the order in which the calls on the forwarder take
  effect: the scanner of some connection records a txnr, a verdict arrives for some
  connection, a connection is removed when its handler ends, or \<open>handleResponses\<close> of
  the connection watched makes a step.
\<close>

datatype relp_event =
    EvReceived MyULID int
  | EvForwardSucc MyULID int
  | EvForwardFail MyULID int
  | EvRemoveConn MyULID
  | EvRespond write_err

definition relp_step :: "MyULID \<Rightarrow> relp_conn \<Rightarrow> relp_event \<Rightarrow> relp_conn" where
  "relp_step connID s ev =
     (case ev of
        EvReceived c txnr \<Rightarrow> s\<lparr>forwarder := Received (forwarder s) c txnr\<rparr>
      | EvForwardSucc c txnr \<Rightarrow> s\<lparr>forwarder := ForwardSucc (forwarder s) c txnr\<rparr>
      | EvForwardFail c txnr \<Rightarrow> s\<lparr>forwarder := ForwardFail (forwarder s) c txnr\<rparr>
      | EvRemoveConn c \<Rightarrow> s\<lparr>forwarder := RemoveConn (forwarder s) c\<rparr>
      | EvRespond err \<Rightarrow> handleResponses_step connID err s)"

definition relp_run :: "MyULID \<Rightarrow> relp_conn \<Rightarrow> relp_event list \<Rightarrow> relp_conn" where
  "relp_run connID s evs = foldl (relp_step connID) s evs"

text \<open>
  \<open>HandleConnection\<close> adds the connection to the forwarder and starts \<open>handleResponses\<close>
  with empty maps.
\<close>

definition start_connection :: "ackForwarder \<Rightarrow> MyULID \<Rightarrow> relp_conn" where
  "start_connection f connID =
     \<lparr>forwarder = AddConn f connID, successes = Map.empty, failures = Map.empty,
      written = [], pc = AtWait\<rparr>"

text \<open>The txnrs that the scanner of the connection records, in order.\<close>

fun received_txnrs :: "MyULID \<Rightarrow> relp_event list \<Rightarrow> int list" where
  "received_txnrs connID [] = []"
| "received_txnrs connID (EvReceived c txnr # evs) =
     (if c = connID then txnr # received_txnrs connID evs else received_txnrs connID evs)"
| "received_txnrs connID (ev # evs) = received_txnrs connID evs"

definition written_txnrs :: "relp_conn \<Rightarrow> int list" where
  "written_txnrs s = map rsp_txnr (written s)"

text \<open>
  The connection 1 receives the txnrs 1, 2 and 3; the verdict for 2 arrives first, then a
  failure for 1; one write times out.
\<close>

definition example_relp_events :: "relp_event list" where
  "example_relp_events =
     [EvReceived 1 1, EvReceived 1 2, EvReceived 1 3,
      EvForwardSucc 1 2,
      EvRespond WriteOk, EvRespond WriteOk, EvRespond WriteOk, EvRespond WriteOk,
      EvForwardFail 1 1,
      EvRespond WriteOk, EvRespond WriteOk, EvRespond WriteOk, EvRespond WriteTimeout,
      EvRespond WriteOk, EvRespond WriteOk, EvRespond WriteOk, EvRespond WriteOk,
      EvRespond WriteOk]"

text \<open>The txnrs still pending in the queue next-to-commit, when the connection has one in use.\<close>

definition pending :: "ackForwarder \<Rightarrow> MyULID \<Rightarrow> int list option" where
  "pending f connID =
     (case f connID of
        None \<Rightarrow> None
      | Some q \<Rightarrow> if Disposed (q_comm q) then None else Some (items (q_comm q)))"

text \<open>
  What holds of a connection after any events, \<open>R\<close> being the txnrs received so far and
  \<open>W\<close> the txnrs answered: the txnrs answered, followed by those pending, are the txnrs
  received (between a write and its commit the txnr just answered is still the first one
  pending); no txnr is a key of both maps; and a txnr answered is a key whose value is
  false.
\<close>

definition order_inv :: "int list option \<Rightarrow> responder_pc \<Rightarrow> int list \<Rightarrow> int list \<Rightarrow> bool" where
  "order_inv p c W R \<longleftrightarrow>
     (case p of
        None \<Rightarrow> (\<exists>rest. R = W @ rest)
      | Some xs \<Rightarrow>
          if c = AtCommit
          then W \<noteq> [] \<and> xs \<noteq> [] \<and> hd xs = last W \<and> butlast W @ xs = R
          else W @ xs = R)"

definition maps_inv :: "(int \<rightharpoonup> bool) \<Rightarrow> (int \<rightharpoonup> bool) \<Rightarrow> int list \<Rightarrow> bool" where
  "maps_inv su fa W \<longleftrightarrow>
     dom su \<inter> dom fa = {}
     \<and> (\<forall>x \<in> set W. \<not> map_read su x \<and> \<not> map_read fa x \<and> x \<in> dom su \<union> dom fa)
     \<and> distinct W"

definition relp_inv :: "MyULID \<Rightarrow> int list \<Rightarrow> relp_conn \<Rightarrow> bool" where
  "relp_inv connID R s \<longleftrightarrow>
     order_inv (pending (forwarder s) connID) (pc s) (written_txnrs s) R
     \<and> maps_inv (successes s) (failures s) (written_txnrs s)"

fun new_txnr :: "MyULID \<Rightarrow> relp_event \<Rightarrow> int list" where
  "new_txnr connID (EvReceived c txnr) = (if c = connID then [txnr] else [])"
| "new_txnr connID ev = []"

section \<open>Properties\<close>

subsection \<open>The TCP destination\<close>

lemma sendOne_ok:
  "sendOne d uid SendOk =
     (d\<lparr>calls := calls d @ (if previousUid d \<noteq> ZeroUid then [Ack (previousUid d)] else []),
        previousUid := uid\<rparr>, False)"
  by (simp add: sendOne_def tcp_ack_def)

lemma sendOne_encoding:
  "sendOne d uid EncodingError = (d\<lparr>calls := calls d @ [Permerr uid]\<rparr>, True)"
  by (simp add: sendOne_def tcp_permerr_def)

lemma sendOne_write:
  "sendOne d uid WriteError =
     (d\<lparr>calls := calls d @ [Nack uid] @ (if previousUid d \<noteq> ZeroUid then [Nack (previousUid d)] else []),
        previousUid := ZeroUid, fatal_closed := True\<rparr>, True)"
  by (simp add: sendOne_def tcp_nack_def tcp_dofatal_def Let_def)

lemma calls_Send_loop_mono:
  "set (calls d) \<subseteq> set (calls (fst (Send_loop d err msgs)))"
proof (induction msgs arbitrary: d err)
  case Nil
  show ?case by simp
next
  case (Cons m msgs)
  obtain uid res where m: "m = (uid, res)" by (cases m)
  obtain d' e where s: "sendOne d uid res = (d', e)" by (cases "sendOne d uid res")
  have "set (calls d) \<subseteq> set (calls d')"
    using s by (cases res) (auto simp: sendOne_ok sendOne_encoding sendOne_write)
  with Cons.IH [of d'] show ?case
    using m s by auto
qed

text \<open>
  Where an ack in the trace of a batch comes from: it was there before, or it is the
  pending \<open>previousUid\<close> released by a successful send of the batch, or it is the uid of a
  message of the batch that was sent successfully and followed by another successful send.
\<close>

lemma Ack_Send_loop:
  "Ack u \<in> set (calls (fst (Send_loop d err msgs))) \<Longrightarrow>
     Ack u \<in> set (calls d)
     \<or> (u = previousUid d \<and> u \<noteq> ZeroUid \<and> SendOk \<in> snd ` set msgs)
     \<or> (\<exists>before after. msgs = before @ (u, SendOk) # after \<and> SendOk \<in> snd ` set after)"
proof (induction msgs arbitrary: d err)
  case Nil
  then show ?case by simp
next
  case (Cons m msgs)
  obtain uid res where m: "m = (uid, res)" by (cases m)
  obtain d' e where s: "sendOne d uid res = (d', e)" by (cases "sendOne d uid res")
  from Cons.prems have "Ack u \<in> set (calls (fst (Send_loop d' (if e then True else err) msgs)))"
    using m s by simp
  from Cons.IH [OF this] consider
      (old) "Ack u \<in> set (calls d')"
    | (prev) "u = previousUid d'" "u \<noteq> ZeroUid" "SendOk \<in> snd ` set msgs"
    | (later) before after where "msgs = before @ (u, SendOk) # after" "SendOk \<in> snd ` set after"
    by blast
  then show ?case
  proof cases
    case old
    then show ?thesis
      using s m by (cases res) (auto simp: sendOne_ok sendOne_encoding sendOne_write split: if_splits)
  next
    case prev
    show ?thesis
    proof (cases res)
      case SendOk
      with s prev have "u = uid" by (auto simp: sendOne_ok)
      with SendOk m prev have "m # msgs = [] @ (u, SendOk) # msgs \<and> SendOk \<in> snd ` set msgs" by simp
      then show ?thesis by blast
    next
      case EncodingError
      with s prev show ?thesis by (auto simp: sendOne_encoding)
    next
      case WriteError
      with s prev show ?thesis by (auto simp: sendOne_write)
    qed
  next
    case later
    then have "m # msgs = (m # before) @ (u, SendOk) # after" by simp
    with later show ?thesis by blast
  qed
qed

text \<open>
  Claim C10. In the TCP destination, a successful send acks only the uid of the
  previously sent message (if there is one) and makes the current uid the pending one; an
  encoding error permerrs the current uid only and leaves the pending uid alone; a write
  error nacks the current uid and the pending previous uid, forgets the pending uid and
  closes the fatal channel. Hence, in any batch handed to a fresh destination, a uid is
  acked only if its message was sent successfully and a later message of the batch was
  sent successfully too. As the statement holds for every batch, it holds for every prefix
  of a batch: no ack precedes the write of a subsequent message.
\<close>

theorem C10_tcp_destination_acks_previous:
  "sendOne d uid SendOk =
     (d\<lparr>calls := calls d @ (if previousUid d \<noteq> ZeroUid then [Ack (previousUid d)] else []),
        previousUid := uid\<rparr>, False)
   \<and> sendOne d uid EncodingError = (d\<lparr>calls := calls d @ [Permerr uid]\<rparr>, True)
   \<and> sendOne d uid WriteError =
     (d\<lparr>calls := calls d @ [Nack uid] @ (if previousUid d \<noteq> ZeroUid then [Nack (previousUid d)] else []),
        previousUid := ZeroUid, fatal_closed := True\<rparr>, True)
   \<and> (Ack u \<in> set (calls (fst (Send new_tcp_destination msgs))) \<longrightarrow>
        (\<exists>before after. msgs = before @ (u, SendOk) # after \<and> SendOk \<in> snd ` set after))"
proof -
  have "\<exists>before after. msgs = before @ (u, SendOk) # after \<and> SendOk \<in> snd ` set after"
    if "Ack u \<in> set (calls (fst (Send new_tcp_destination msgs)))"
  proof -
    from that have "Ack u \<in> set (calls (fst (Send_loop new_tcp_destination False msgs)))"
      by (simp add: Send_def)
    from Ack_Send_loop [OF this] show ?thesis
      by (auto simp: new_tcp_destination_def)
  qed
  then show ?thesis
    by (simp only: sendOne_ok sendOne_encoding sendOne_write) blast
qed

theorem C10_tcp_destination_acks_previous_witness:
  "Ack 5 \<in> set (calls (fst (Send new_tcp_destination [(5, SendOk), (6, SendOk)])))
   \<and> (\<exists>before after. [(5 :: MyULID, SendOk), (6, SendOk)] = before @ (5, SendOk) # after
        \<and> SendOk \<in> snd ` set after)"
proof -
  have h: "Ack 5 \<in> set (calls (fst (Send new_tcp_destination [(5, SendOk), (6, SendOk)])))"
    by (simp add: Send_def sendOne_def new_tcp_destination_def ZeroUid_def tcp_ack_def)
  with C10_tcp_destination_acks_previous [of _ _ 5 "[(5, SendOk), (6, SendOk)]"]
  show ?thesis by blast
qed

subsection \<open>The HTTP destination\<close>

text \<open>
  Claim C5, as stated, fails: on a 4xx response the HTTP destination nacks the message
  (it does not permerr it).
\<close>

theorem C5_http_4xx_is_nacked_counterexample:
  "fst (dosendOne \<lparr>url_execute_fails = False, encoder_fails = False,
                    new_request_fails = False, do_result = Some 404\<rparr> 7) = [Nack 7]
   \<and> fst (dosendOne \<lparr>url_execute_fails = False, encoder_fails = False,
                    new_request_fails = False, do_result = Some 404\<rparr> 7) \<noteq> [Permerr 7]"
  by (simp add: dosendOne_def)

text \<open>
  Claim C5, amended. For every message processed by the HTTP destination exactly one store
  callback is invoked, for the uid of the message: permerr when the URL template, the
  encoder or the construction of the request fails; otherwise nack when the request
  cannot be sent (a transport error); otherwise ack when the status code is in 200..299,
  and nack for every other status code, the 4xx class included.
\<close>

theorem C5_http_exactly_one_callback:
  "(\<exists>c. fst (dosendOne env uid) = [c] \<and> c \<in> {Ack uid, Nack uid, Permerr uid})
   \<and> (url_execute_fails env \<or> encoder_fails env \<or> new_request_fails env
        \<longrightarrow> fst (dosendOne env uid) = [Permerr uid])
   \<and> (\<not> url_execute_fails env \<and> \<not> encoder_fails env \<and> \<not> new_request_fails env \<longrightarrow>
        (do_result env = None \<longrightarrow> dosendOne env uid = ([Nack uid], True))
        \<and> (\<forall>code. do_result env = Some code \<longrightarrow>
              (200 \<le> code \<and> code < 300 \<longrightarrow> dosendOne env uid = ([Ack uid], False))
              \<and> (\<not> (200 \<le> code \<and> code < 300) \<longrightarrow> dosendOne env uid = ([Nack uid], True))))"
  by (auto simp: dosendOne_def split: option.splits)

theorem C5_http_exactly_one_callback_witness:
  "dosendOne \<lparr>url_execute_fails = False, encoder_fails = False,
               new_request_fails = False, do_result = Some 200\<rparr> 9 = ([Ack 9], False)
   \<and> dosendOne \<lparr>url_execute_fails = False, encoder_fails = False,
               new_request_fails = False, do_result = Some 403\<rparr> 9 = ([Nack 9], True)
   \<and> fst (dosendOne \<lparr>url_execute_fails = False, encoder_fails = True,
               new_request_fails = False, do_result = Some 200\<rparr> 9) = [Permerr 9]"
  using C5_http_exactly_one_callback
          [of "\<lparr>url_execute_fails = False, encoder_fails = False,
                 new_request_fails = False, do_result = Some 200\<rparr>" 9]
        C5_http_exactly_one_callback
          [of "\<lparr>url_execute_fails = False, encoder_fails = False,
                 new_request_fails = False, do_result = Some 403\<rparr>" 9]
        C5_http_exactly_one_callback
          [of "\<lparr>url_execute_fails = False, encoder_fails = True,
                 new_request_fails = False, do_result = Some 200\<rparr>" 9]
  by simp

subsection \<open>Configuration reload in the serve child\<close>

lemma Serve_confChan_Store:
  "Store (conf (Serve_confChan ch (Some newConf) ok)) = Store (conf ch)"
  by (simp add: Serve_confChan_def Let_def)

lemma Serve_reloads_Store:
  "Store (conf (Serve_reloads ch rs)) = Store (conf ch)"
  by (induction ch rs rule: Serve_reloads.induct) (simp_all add: Serve_confChan_Store)

text \<open>
  Claim C7. When the serve child accepts a new configuration snapshot, the \<open>Store\<close>
  section of the configuration it makes active is the \<open>Store\<close> section of the
  configuration that was active before, whatever the snapshot carries, whether or not the
  reload that follows succeeds, and so after any number of reloads. What is replaced lies
  in the other sections only: they come from the snapshot (of the \<open>Main\<close> section, the
  \<open>EncryptIPC\<close> flag is kept as well). \<open>GConfig.Reload\<close> of the conf package keeps the
  store section (its directory) of the current configuration in the same way.
\<close>

theorem C7_reload_keeps_store_section:
  "Store (conf (Serve_confChan ch (Some newConf) ok)) = Store (conf ch)
   \<and> other_sections (conf (Serve_confChan ch (Some newConf) ok)) = other_sections newConf
   \<and> main_other (Main (conf (Serve_confChan ch (Some newConf) ok))) = main_other (Main newConf)
   \<and> EncryptIPC (Main (conf (Serve_confChan ch (Some newConf) ok))) = EncryptIPC (Main (conf ch))
   \<and> Store (conf (Serve_reloads ch rs)) = Store (conf ch)
   \<and> (\<forall>c'. Reload InitLoad c = Some c' \<longrightarrow> GStore c' = GStore c)"
  by (auto simp: Serve_reloads_Store Serve_confChan_def Let_def Reload_def split: option.splits)

theorem C7_reload_keeps_store_section_witness:
  "Store (conf (Serve_confChan
       \<lparr>conf = \<lparr>Store = ''/var/lib/skewer'', Main = \<lparr>EncryptIPC = True, main_other = (1::nat)\<rparr>,
                other_sections = ''tcp:2514''\<rparr>, shutdown_called = False\<rparr>
       (Some \<lparr>Store = ''/tmp/other'', Main = \<lparr>EncryptIPC = False, main_other = 2\<rparr>,
              other_sections = ''tcp:2515''\<rparr>) True)) = ''/var/lib/skewer''
   \<and> Reload (\<lambda>d p x. Some \<lparr>Syslog = (), Kafka = (), GStore = \<lparr>Dirname = ''/tmp/other''\<rparr>,
                           conf_Dirname = d, ConsulPrefix = x, ConsulParams = p\<rparr>)
        \<lparr>Syslog = (), Kafka = (), GStore = \<lparr>Dirname = ''/var/lib/skewer''\<rparr>,
         conf_Dirname = ''/etc'', ConsulPrefix = ''skewer'', ConsulParams = ()\<rparr>
      = Some \<lparr>Syslog = (), Kafka = (), GStore = \<lparr>Dirname = ''/var/lib/skewer''\<rparr>,
         conf_Dirname = ''/etc'', ConsulPrefix = ''skewer'', ConsulParams = ()\<rparr>"
proof -
  let ?load = "\<lambda>d p x. Some \<lparr>Syslog = (), Kafka = (), GStore = \<lparr>Dirname = ''/tmp/other''\<rparr>,
                           conf_Dirname = d, ConsulPrefix = x, ConsulParams = p\<rparr>"
  let ?c = "\<lparr>Syslog = (), Kafka = (), GStore = \<lparr>Dirname = ''/var/lib/skewer''\<rparr>,
         conf_Dirname = ''/etc'', ConsulPrefix = ''skewer'', ConsulParams = ()\<rparr>"
  have r: "Reload ?load ?c = Some ?c"
    by (simp add: Reload_def)
  from C7_reload_keeps_store_section
         [of "\<lparr>conf = \<lparr>Store = ''/var/lib/skewer'', Main = \<lparr>EncryptIPC = True, main_other = (1::nat)\<rparr>,
                other_sections = ''tcp:2514''\<rparr>, shutdown_called = False\<rparr>"
             "\<lparr>Store = ''/tmp/other'', Main = \<lparr>EncryptIPC = False, main_other = 2\<rparr>,
              other_sections = ''tcp:2515''\<rparr>" True "[]" ?load ?c]
  show ?thesis using r by simp
qed

subsection \<open>The configuration provider\<close>

lemma cmd_consulparams_resets:
  "Unmarshal env payload (params st) = Some decoded \<Longrightarrow>
     cmd_consulparams env st [c, payload] = (st\<lparr>params := zero_ConnParams\<rparr>, Continue)"
  by (simp add: cmd_consulparams_def)

lemma cmd_consulparams_confined_sets:
  "Unmarshal env payload zero_ConnParams = Some decoded \<Longrightarrow>
     cmd_consulparams_confined env st [c, payload] = (st\<lparr>params := decoded\<rparr>, Continue)"
  by (simp add: cmd_consulparams_confined_def)

text \<open>
  Claim C6 does not hold of \<open>LaunchConfProvider\<close> in services/configuration.go. The
  command \<open>consulparams {"Address":"consul:8500"}\<close> decodes to the parameters with that
  address, yet after it the provider holds the zero parameters, and the \<open>start\<close> that
  follows is called with them. The copy of the function with the \<open>confined\<close> parameter
  passes the decoded parameters on.
\<close>

theorem C6_consulparams_are_dropped:
  "Unmarshal address_env (SplitN2 consulparams_command ! 1) zero_ConnParams
     = Some \<lparr>Address = ''consul:8500''\<rparr>
   \<and> params (fst (conf_command address_env new_conf_provider consulparams_command))
     = zero_ConnParams
   \<and> start_calls (fst (LaunchConfProvider address_env new_conf_provider
        [consulparams_command, ''confdir /etc/skewer'', ''start'']))
     = [(''/etc/skewer'', zero_ConnParams)]
   \<and> start_calls (fst (LaunchConfProvider_confined address_env False new_conf_provider
        [consulparams_command, ''confdir /etc/skewer'', ''start'']))
     = [(''/etc/skewer'', \<lparr>Address = ''consul:8500''\<rparr>)]"
  by (simp add: consulparams_command_def conf_command_def conf_command_confined_def
        cmd_consulparams_def cmd_consulparams_confined_def address_prefix_def address_suffix_def
        address_env_def unmarshal_address_def new_conf_provider_def cmd_start_def start_def
        TrimSpace_def isSpace_def zero_ConnParams_def Let_def)

subsection \<open>The ring buffer\<close>

lemma and_mask_u64: "k \<le> 63 \<Longrightarrow> unat (p AND (2 ^ k - 1 :: u64)) = unat p mod 2 ^ k"
proof -
  have "p AND (2 ^ k - 1) = take_bit k p"
    by (simp only: take_bit_eq_mask mask_eq_exp_minus_1)
  then have "unat (p AND (2 ^ k - 1)) = take_bit k (unat p)"
    by (simp only: unsigned_take_bit_eq)
  then show ?thesis
    by (simp only: take_bit_eq_mod)
qed

lemma idx_add:
  assumes "k \<le> 63"
  shows "unat ((d + of_nat j) AND (2 ^ k - 1 :: u64)) = (unat d + j) mod 2 ^ k"
proof -
  have "(2::nat) ^ k dvd 2 ^ 64"
    using assms by (intro le_imp_power_dvd) simp
  then have dvd: "(2::nat) ^ k dvd 18446744073709551616" by simp
  have "unat (d + of_nat j :: u64) = (unat d + j) mod 2 ^ 64"
    by (simp add: unat_word_ariths unat_of_nat mod_add_right_eq)
  then have "unat (d + of_nat j :: u64) mod 2 ^ k = (unat d + j) mod 2 ^ k"
    using dvd by (simp add: mod_mod_cancel)
  then show ?thesis
    using assms by (simp only: and_mask_u64)
qed

lemma idx_inj_le:
  assumes "i \<le> j" "j < n" "(a + i) mod n = (a + j) mod (n::nat)"
  shows "i = j"
proof -
  from assms have le: "a + i \<le> a + j" by simp
  have "n dvd (a + j) - (a + i)"
    using mod_eq_dvd_iff_nat [OF le, of n] assms(3) [symmetric] by blast
  then have "n dvd j - i" by simp
  moreover have "j - i < n" using assms by simp
  ultimately have "j - i = 0"
    by (meson dvd_imp_le less_le_not_le neq0_conv)
  with assms show ?thesis by simp
qed

lemma idx_inj:
  assumes "i < n" "j < n" "(a + i) mod n = (a + j) mod (n::nat)"
  shows "i = j"
proof (cases "i \<le> j")
  case True
  with assms show ?thesis by (auto dest: idx_inj_le)
next
  case False
  then have "j \<le> i" by simp
  with assms idx_inj_le [of j i n a] show ?thesis by simp
qed

lemma ring_inv_shape:
  assumes "ring_inv rb"
  obtains k where "k \<le> 63" "length (nodes rb) = 2 ^ k" "mask rb = 2 ^ k - 1"
  using assms unfolding ring_inv_def by blast

lemma ring_idx:
  assumes "k \<le> 63" "length (nodes rb) = 2 ^ k" "mask rb = 2 ^ k - 1"
  shows "unat ((d + of_nat j) AND mask rb) = (unat d + j) mod length (nodes rb)"
  using idx_add [OF assms(1), of d j] assms(2,3) by simp

lemma ring_idx0:
  assumes "k \<le> 63" "length (nodes rb) = 2 ^ k" "mask rb = 2 ^ k - 1"
  shows "unat (d AND mask rb) = (unat d + 0) mod length (nodes rb)"
  using ring_idx [OF assms, of d 0] by simp

lemma ring_node_at:
  assumes "ring_inv rb" "j < length (nodes rb)"
  shows "position (nodes rb ! unat ((dequeue rb + of_nat j) AND mask rb)) =
           (if j < unat (Len rb) then dequeue rb + of_nat j + 1 else dequeue rb + of_nat j)"
  using assms unfolding ring_inv_def by blast

lemma ring_queue_eq: "queue rb = dequeue rb + of_nat (unat (Len rb))"
  by (simp add: Len_def)

lemma of_nat_cap_neq_1:
  assumes "k \<le> 63" "n = 2 ^ k" "2 \<le> n"
  shows "(of_nat n :: u64) \<noteq> 1"
proof
  assume e: "(of_nat n :: u64) = 1"
  have "(2::nat) ^ k \<le> 2 ^ 63" using assms(1) by (intro power_increasing) simp_all
  then have "n < 2 ^ 64" using assms(2) by simp
  then have "unat (of_nat n :: u64) = n" by (simp add: unat_of_nat)
  with e have "n = 1" by simp
  with assms(3) show False by simp
qed

lemma cap_lt_2_64:
  assumes "k \<le> 63" "n = (2::nat) ^ k"
  shows "n \<le> 2 ^ 63"
proof -
  have "(2::nat) ^ k \<le> 2 ^ 63" using assms(1) by (intro power_increasing) simp_all
  then show ?thesis using assms(2) by simp
qed

lemma put_iter_PutOk:
  assumes inv: "ring_inv rb" and two: "2 \<le> length (nodes rb)"
    and res: "put_iter rb item offer pos = Inl (rb', PutOk)"
  shows "ring_inv rb' \<and> Len rb' = Len rb + 1 \<and> unat (Len rb) < length (nodes rb)
         \<and> length (nodes rb') = length (nodes rb) \<and> disposed rb' = disposed rb"
proof -
  from inv obtain k where k: "k \<le> 63" "length (nodes rb) = 2 ^ k" "mask rb = 2 ^ k - 1"
    by (rule ring_inv_shape)
  define n where "n = length (nodes rb)"
  define d where "d = dequeue rb"
  define l where "l = unat (Len rb)"
  define i where "i = unat (pos AND mask rb)"
  from res have f: "i < n" "position (nodes rb ! i) = pos" "queue rb = pos"
      "rb' = rb\<lparr>queue := pos + 1, nodes := (nodes rb)[i := \<lparr>position = pos + 1, data = Some item\<rparr>]\<rparr>"
    by (auto simp: put_iter_def Let_def i_def n_def split: if_splits)
  have pos: "pos = d + of_nat l"
    using ring_queue_eq [of rb] f(3) by (simp add: d_def l_def)
  have i: "i = (unat d + l) mod n"
    unfolding i_def pos n_def by (rule ring_idx [OF k])
  have le: "l \<le> n"
    using inv by (simp add: ring_inv_def l_def n_def)
  have n63: "n \<le> 2 ^ 63"
    using cap_lt_2_64 [OF k(1)] k(2) by (simp add: n_def)
  have at: "position (nodes rb ! ((unat d + j) mod n)) =
              (if j < l then d + of_nat j + 1 else d + of_nat j)" if "j < n" for j
    using ring_node_at [OF inv, of j] that ring_idx [OF k, of d j]
    by (simp add: n_def d_def l_def)
  have lt: "l < n"
  proof (rule ccontr)
    assume "\<not> l < n"
    with le have ln: "l = n" by simp
    have "i = (unat d + 0) mod n" using i ln by simp
    moreover have "0 < n" using two unfolding n_def by linarith
    then have "position (nodes rb ! ((unat d + 0) mod n)) = d + of_nat 0 + 1"
      using at [of 0] ln by simp
    ultimately have "pos = d + 1" using f(2) by simp
    with pos ln have "(of_nat n :: u64) = 1" by simp
    with of_nat_cap_neq_1 [OF k(1), of n] k(2) two show False by (simp add: n_def)
  qed
  have len': "Len rb' = Len rb + 1"
    using f(3,4) by (simp add: Len_def)
  have "unat (Len rb + 1) = (l + 1) mod 2 ^ 64"
    by (simp add: unat_word_ariths l_def)
  moreover have "l + 1 < 2 ^ 64" using lt n63 by simp
  ultimately have ulen': "unat (Len rb') = l + 1"
    using len' by simp
  have nodes': "nodes rb' = (nodes rb)[i := \<lparr>position = pos + 1, data = Some item\<rparr>]"
    "dequeue rb' = d" "mask rb' = mask rb" "disposed rb' = disposed rb"
    using f(4) by (simp_all add: d_def)
  have "position (nodes rb' ! unat ((dequeue rb' + of_nat j) AND mask rb')) =
          (if j < unat (Len rb') then dequeue rb' + of_nat j + 1 else dequeue rb' + of_nat j)"
    if j: "j < n" for j
  proof -
    have ij: "unat ((d + of_nat j) AND mask rb) = (unat d + j) mod n"
      unfolding n_def by (rule ring_idx [OF k])
    show ?thesis
    proof (cases "j = l")
      case True
      then show ?thesis
        using ij i f(1) ulen' pos by (simp add: nodes' n_def)
    next
      case False
      then have "(unat d + j) mod n \<noteq> i"
        using idx_inj [of j n l "unat d"] j lt i by auto
      then show ?thesis
        using ij at [OF j] False ulen' by (auto simp: nodes')
    qed
  qed
  moreover have "disposed rb \<le> 1"
    using inv by (simp add: ring_inv_def)
  ultimately have "ring_inv rb'"
    unfolding ring_inv_def using k ulen' lt nodes' by (auto simp: n_def)
  with len' lt nodes' show ?thesis by (simp add: l_def n_def)
qed

lemma poll_iter_GetOk:
  assumes inv: "ring_inv rb"
    and res: "poll_iter rb timeout since pos = Inl (rb', GetOk x)"
  shows "ring_inv rb' \<and> Len rb' = Len rb - 1 \<and> 0 < unat (Len rb)
         \<and> length (nodes rb') = length (nodes rb) \<and> disposed rb' = disposed rb"
proof -
  from inv obtain k where k: "k \<le> 63" "length (nodes rb) = 2 ^ k" "mask rb = 2 ^ k - 1"
    by (rule ring_inv_shape)
  define n where "n = length (nodes rb)"
  define d where "d = dequeue rb"
  define l where "l = unat (Len rb)"
  define i where "i = unat (pos AND mask rb)"
  from res have f: "i < n" "position (nodes rb ! i) = pos + 1" "d = pos"
      "rb' = rb\<lparr>dequeue := pos + 1,
                 nodes := (nodes rb)[i := \<lparr>position = pos + mask rb + 1, data = None\<rparr>]\<rparr>"
    by (auto simp: poll_iter_def Let_def i_def n_def d_def split: if_splits)
  have i: "i = (unat d + 0) mod n"
    unfolding i_def n_def f(3) [symmetric] by (rule ring_idx0 [OF k])
  have le: "l \<le> n"
    using inv by (simp add: ring_inv_def l_def n_def)
  have n0: "0 < n" using k(2) by (simp add: n_def)
  have at: "position (nodes rb ! ((unat d + j) mod n)) =
              (if j < l then d + of_nat j + 1 else d + of_nat j)" if "j < n" for j
    using ring_node_at [OF inv, of j] that ring_idx [OF k, of d j]
    by (simp add: n_def d_def l_def)
  have l0: "0 < l"
  proof (rule ccontr)
    assume "\<not> 0 < l"
    then have "position (nodes rb ! ((unat d + 0) mod n)) = d"
      using at [OF n0] by simp
    with i f(2,3) show False by simp
  qed
  then have Lne: "Len rb \<noteq> 0"
    by (auto simp: l_def)
  have len': "Len rb' = Len rb - 1"
    using f(3,4) by (simp add: Len_def d_def)
  have ulen': "unat (Len rb') = l - 1"
    using len' Lne by (simp add: unat_minus_one l_def)
  have maskn: "mask rb + 1 = of_nat n"
    using k by (simp add: n_def)
  have nodes': "nodes rb' = (nodes rb)[i := \<lparr>position = d + of_nat n, data = None\<rparr>]"
    "dequeue rb' = d + 1" "mask rb' = mask rb" "disposed rb' = disposed rb"
    using f(3,4) maskn by (simp_all add: add.assoc)
  have "position (nodes rb' ! unat ((dequeue rb' + of_nat j) AND mask rb')) =
          (if j < unat (Len rb') then dequeue rb' + of_nat j + 1 else dequeue rb' + of_nat j)"
    if j: "j < n" for j
  proof -
    have e: "d + 1 + of_nat j = d + of_nat (Suc j)" by simp
    have ij: "unat ((d + 1 + of_nat j) AND mask rb) = (unat d + Suc j) mod n"
      unfolding n_def e by (rule ring_idx [OF k])
    show ?thesis
    proof (cases "Suc j = n")
      case True
      then have "(unat d + Suc j) mod n = i" using i by simp
      moreover have "\<not> j < l - 1" using True le by simp
      moreover have "d + of_nat n = d + 1 + of_nat j" using True [symmetric] by simp
      ultimately show ?thesis
        using ij f(1) ulen' by (simp add: nodes' n_def)
    next
      case False
      with j have sj: "Suc j < n" by simp
      then have "(unat d + Suc j) mod n \<noteq> i"
        using idx_inj [of "Suc j" n 0 "unat d"] n0 i by auto
      moreover have "(Suc j < l) = (j < l - 1)" using l0 by auto
      ultimately show ?thesis
        using ij at [OF sj] ulen' by (simp add: nodes' add.commute add.left_commute)
    qed
  qed
  moreover have "disposed rb \<le> 1"
    using inv by (simp add: ring_inv_def)
  ultimately have "ring_inv rb'"
    unfolding ring_inv_def using k ulen' le nodes' by (auto simp: n_def)
  with len' l0 nodes' show ?thesis by (simp add: l_def n_def)
qed

lemma put_iter_unchanged:
  "put_iter rb item offer pos = Inl (rb', res) \<Longrightarrow> res \<noteq> PutOk \<Longrightarrow> rb' = rb"
  by (auto simp: put_iter_def Let_def split: if_splits)

lemma poll_iter_unchanged:
  "poll_iter rb timeout since pos = Inl (rb', res) \<Longrightarrow> \<forall>x. res \<noteq> GetOk x \<Longrightarrow> rb' = rb"
  by (auto simp: poll_iter_def Let_def split: if_splits)

lemma put_loop_Some:
  "put_loop fuel rb item offer pos = Some r \<Longrightarrow> \<exists>pos'. put_iter rb item offer pos' = Inl r"
proof (induction fuel arbitrary: pos)
  case 0
  then show ?case by simp
next
  case (Suc fuel)
  then show ?case
    by (cases "put_iter rb item offer pos") auto
qed

lemma poll_loop_Some:
  "poll_loop fuel rb timeout clock k pos = Some r \<Longrightarrow>
     \<exists>since pos'. poll_iter rb timeout since pos' = Inl r"
proof (induction fuel arbitrary: pos k)
  case 0
  then show ?case by simp
next
  case (Suc fuel)
  then show ?case
    by (cases "poll_iter rb timeout (clock k) pos") auto
qed

lemma put_loop_inv:
  assumes "ring_inv rb" "2 \<le> length (nodes rb)" "put_loop fuel rb item offer pos = Some (rb', res)"
  shows "ring_inv rb' \<and> length (nodes rb') = length (nodes rb)"
proof -
  from put_loop_Some [OF assms(3)] obtain pos' where p: "put_iter rb item offer pos' = Inl (rb', res)"
    by blast
  show ?thesis
  proof (cases "res = PutOk")
    case True
    with put_iter_PutOk [OF assms(1,2), of item offer pos' rb'] p show ?thesis by simp
  next
    case False
    with put_iter_unchanged [OF p] assms(1) show ?thesis by simp
  qed
qed

lemma poll_loop_inv:
  assumes "ring_inv rb" "poll_loop fuel rb timeout clock k pos = Some (rb', res)"
  shows "ring_inv rb' \<and> length (nodes rb') = length (nodes rb)"
proof -
  from poll_loop_Some [OF assms(2)] obtain since pos'
    where p: "poll_iter rb timeout since pos' = Inl (rb', res)"
    by blast
  show ?thesis
  proof (cases "\<exists>x. res = GetOk x")
    case True
    then obtain x where "res = GetOk x" by blast
    with poll_iter_GetOk [OF assms(1), of timeout since pos' rb' x] p show ?thesis by simp
  next
    case False
    with poll_iter_unchanged [OF p] assms(1) show ?thesis by simp
  qed
qed

lemma Dispose_inv: "ring_inv rb \<Longrightarrow> ring_inv (Dispose rb) \<and> length (nodes (Dispose rb)) = length (nodes rb)"
  by (auto simp: ring_inv_def Dispose_def Len_def)

lemma ring_step_inv:
  assumes "ring_inv rb" "2 \<le> length (nodes rb)"
  shows "ring_inv (ring_step rb op) \<and> length (nodes (ring_step rb op)) = length (nodes rb)"
proof (cases op)
  case (OpPut fuel item)
  then show ?thesis
    using assms put_loop_inv [OF assms, of fuel item False "queue rb"]
    by (auto simp: after_call_def Put_def put_def split: option.splits)
next
  case (OpOffer fuel item)
  then show ?thesis
    using assms put_loop_inv [OF assms, of fuel item True "queue rb"]
    by (auto simp: after_call_def Offer_def put_def split: option.splits)
next
  case (OpGet fuel clock)
  then show ?thesis
    using assms poll_loop_inv [OF assms(1), of fuel 0 clock 0 "dequeue rb"]
    by (auto simp: after_call_def Get_def Poll_def split: option.splits)
next
  case (OpPoll fuel timeout clock)
  then show ?thesis
    using assms poll_loop_inv [OF assms(1), of fuel timeout clock 0 "dequeue rb"]
    by (auto simp: after_call_def Poll_def split: option.splits)
next
  case OpDispose
  then show ?thesis using Dispose_inv [OF assms(1)] by simp
qed

lemma ring_run_inv:
  "ring_inv rb \<Longrightarrow> 2 \<le> length (nodes rb) \<Longrightarrow>
     ring_inv (ring_run rb ops) \<and> length (nodes (ring_run rb ops)) = length (nodes rb)"
proof (induction ops arbitrary: rb)
  case Nil
  then show ?case by (simp add: ring_run_def)
next
  case (Cons op ops)
  from ring_step_inv [OF Cons.prems, of op]
  have s: "ring_inv (ring_step rb op)" "length (nodes (ring_step rb op)) = length (nodes rb)"
    by simp_all
  with Cons.prems have "2 \<le> length (nodes (ring_step rb op))" by simp
  from Cons.IH [OF s(1) this] s(2) show ?case
    by (simp add: ring_run_def)
qed

lemma next_pow2_least:
  "\<exists>k. next_pow2 n = 2 ^ k \<and> n \<le> 2 ^ k \<and> (\<forall>j. n \<le> 2 ^ j \<longrightarrow> k \<le> j)"
proof (induction n rule: next_pow2.induct)
  case (1 n)
  show ?case
  proof (cases "n \<le> 1")
    case True
    then have "next_pow2 n = 2 ^ 0 \<and> n \<le> 2 ^ 0 \<and> (\<forall>j. n \<le> 2 ^ j \<longrightarrow> 0 \<le> j)"
      by (subst next_pow2.simps) simp
    then show ?thesis by blast
  next
    case False
    from 1 [OF False] obtain k where k: "next_pow2 ((n + 1) div 2) = 2 ^ k"
      "(n + 1) div 2 \<le> 2 ^ k" "\<forall>j. (n + 1) div 2 \<le> 2 ^ j \<longrightarrow> k \<le> j"
      by blast
    have a: "next_pow2 n = 2 ^ Suc k"
      using False k(1) by (subst next_pow2.simps) simp
    have b: "n \<le> 2 ^ Suc k"
      using k(2) by simp
    have c: "Suc k \<le> j" if "n \<le> 2 ^ j" for j
    proof (cases j)
      case 0
      with that False show ?thesis by simp
    next
      case (Suc j')
      with that have "(n + 1) div 2 \<le> 2 ^ j'" by simp
      with k(3) Suc show ?thesis by simp
    qed
    from a b c show ?thesis by blast
  qed
qed

lemma unat_pow2_u64:
  assumes "k \<le> 63"
  shows "unat (2 ^ k :: u64) = 2 ^ k"
proof -
  have "(2::nat) ^ k \<le> 2 ^ 63" using assms by (intro power_increasing) simp_all
  then have lt: "(2::nat) ^ k < 2 ^ 64" by simp
  have "unat (of_nat (2 ^ k) :: u64) = 2 ^ k mod 2 ^ 64"
    by (simp only: unat_of_nat len_of_numeral_defs) simp
  with lt show ?thesis by simp
qed

lemma roundUp_pow2:
  assumes "unat requested \<le> 2 ^ 63"
  obtains k where "k \<le> 63" "unat (roundUp requested) = 2 ^ k" "roundUp requested = 2 ^ k"
    "unat requested \<le> 2 ^ k" "\<forall>j. unat requested \<le> 2 ^ j \<longrightarrow> k \<le> j"
proof -
  from next_pow2_least [of "unat requested"] obtain k where k:
    "next_pow2 (unat requested) = 2 ^ k" "unat requested \<le> 2 ^ k"
    "\<forall>j. unat requested \<le> 2 ^ j \<longrightarrow> k \<le> j"
    by blast
  from k(3) assms have k63: "k \<le> 63" by blast
  then have "(2::nat) ^ k \<le> 2 ^ 63" by (intro power_increasing) simp_all
  then have lt: "(2::nat) ^ k < 2 ^ 64" by simp
  have r: "roundUp requested = 2 ^ k"
    using k(1) by (simp add: roundUp_def)
  have "unat (2 ^ k :: u64) = 2 ^ k"
    using k63 by (rule unat_pow2_u64)
  with r have "unat (roundUp requested) = 2 ^ k" by simp
  with k63 r k(2,3) that show ?thesis by blast
qed

lemma NewRawTCPRing_inv:
  assumes "unat requested \<le> 2 ^ 63"
  shows "ring_inv (NewRawTCPRing requested :: 'a RawTCPRing)"
proof -
  from assms obtain k where k: "k \<le> 63" "unat (roundUp requested) = 2 ^ k"
    "roundUp requested = 2 ^ k"
    by (rule roundUp_pow2)
  let ?rb = "NewRawTCPRing requested :: 'a RawTCPRing"
  have len: "length (nodes ?rb) = 2 ^ k" and m: "mask ?rb = 2 ^ k - 1"
    and d: "dequeue ?rb = 0" "queue ?rb = 0" "disposed ?rb = 0"
    using k by (simp_all add: NewRawTCPRing_def Let_def)
  have "position (nodes ?rb ! unat ((dequeue ?rb + of_nat j) AND mask ?rb)) = dequeue ?rb + of_nat j"
    if "j < 2 ^ k" for j
  proof -
    have "unat ((0 + of_nat j) AND mask ?rb) = (unat (0::u64) + j) mod length (nodes ?rb)"
      by (rule ring_idx [OF k(1) len m])
    then have "unat ((dequeue ?rb + of_nat j) AND mask ?rb) = j"
      using that len d by simp
    then show ?thesis
      using that k d by (simp add: NewRawTCPRing_def Let_def)
  qed
  then show ?thesis
    unfolding ring_inv_def using k(1) len m d by (auto simp: Len_def)
qed

lemma Cap_NewRawTCPRing:
  assumes "unat requested \<le> 2 ^ 63"
  shows "unat (Cap (NewRawTCPRing requested :: 'a RawTCPRing)) = next_pow2 (unat requested)"
proof -
  from assms obtain k where k: "k \<le> 63" "unat (roundUp requested) = 2 ^ k"
    "roundUp requested = 2 ^ k"
    by (rule roundUp_pow2)
  from next_pow2_least [of "unat requested"] obtain k' where k':
    "next_pow2 (unat requested) = 2 ^ k'" "\<forall>j. unat requested \<le> 2 ^ j \<longrightarrow> k' \<le> j"
    by blast
  from k'(2) assms have "k' \<le> 63" by blast
  then have "unat (2 ^ k' :: u64) = 2 ^ k'"
    by (rule unat_pow2_u64)
  then have u: "unat (roundUp requested) = next_pow2 (unat requested)"
    using k'(1) by (simp add: roundUp_def)
  have "Cap (NewRawTCPRing requested :: 'a RawTCPRing) = roundUp requested"
    using k by (simp add: Cap_def NewRawTCPRing_def Let_def)
  with u show ?thesis by simp
qed

lemma ring_inv_Len_le_Cap:
  assumes "ring_inv rb"
  shows "Len rb \<le> Cap rb"
proof -
  from assms obtain k where k: "k \<le> 63" "length (nodes rb) = 2 ^ k"
    by (rule ring_inv_shape)
  have "(2::nat) ^ k \<le> 2 ^ 63" using k(1) by (intro power_increasing) simp_all
  then have "length (nodes rb) < 2 ^ 64" using k(2) by simp
  then have "unat (Cap rb) = length (nodes rb)"
    by (simp add: Cap_def unat_of_nat)
  moreover have "unat (Len rb) \<le> length (nodes rb)"
    using assms by (simp add: ring_inv_def)
  ultimately show ?thesis by (simp add: word_le_nat_alt)
qed






text \<open>
  A ring of two or more slots never holds more items than it has slots, whatever calls
  are made on it, one after the other.
\<close>

lemma ring_run_Len_le_Cap:
  assumes "2 \<le> unat requested" "unat requested \<le> 2 ^ 63"
  shows "ring_inv (ring_run (NewRawTCPRing requested :: 'a RawTCPRing) ops)
         \<and> Len (ring_run (NewRawTCPRing requested :: 'a RawTCPRing) ops)
             \<le> Cap (ring_run (NewRawTCPRing requested :: 'a RawTCPRing) ops)"
proof -
  let ?rb = "NewRawTCPRing requested :: 'a RawTCPRing"
  have inv: "ring_inv ?rb" by (rule NewRawTCPRing_inv [OF assms(2)])
  from next_pow2_least [of "unat requested"] have "unat requested \<le> next_pow2 (unat requested)"
    by auto
  with assms(1) Cap_NewRawTCPRing [OF assms(2), where 'a = 'a] have "2 \<le> unat (Cap ?rb)"
    by simp
  moreover have "unat (Cap ?rb) \<le> length (nodes ?rb)"
    by (simp add: Cap_def unat_of_nat)
  ultimately have "2 \<le> length (nodes ?rb)" by simp
  from ring_run_inv [OF inv this, of ops] ring_inv_Len_le_Cap show ?thesis by blast
qed

lemma NewRawTCPRing_1:
  "(NewRawTCPRing 1 :: 'a RawTCPRing) =
     \<lparr>queue = 0, dequeue = 0, mask = 0, disposed = 0, nodes = [\<lparr>position = 0, data = None\<rparr>]\<rparr>"
  by (simp add: NewRawTCPRing_def roundUp_def next_pow2.simps)

lemma NewRawTCPRing_2:
  "(NewRawTCPRing 2 :: 'a RawTCPRing) =
     \<lparr>queue = 0, dequeue = 0, mask = 1, disposed = 0,
      nodes = [\<lparr>position = 0, data = None\<rparr>, \<lparr>position = 1, data = None\<rparr>]\<rparr>"
  by (simp add: NewRawTCPRing_def roundUp_def next_pow2.simps upt_rec)

text \<open>
  Claim C8 fails on a ring created with size 1. Its capacity is 1 (the least power of two
  that is at least 1); the first \<open>Put\<close> fills it; the second \<open>Put\<close> (and likewise an
  \<open>Offer\<close>) finds the sequence number of the only node equal to its position, succeeds
  and overwrites the first item. The ring then reports \<open>Len\<close> 2 with \<open>Cap\<close> 1.
\<close>

theorem C8_ring_of_size_one_overfills:
  "Cap (NewRawTCPRing 1 :: string RawTCPRing) = 1
   \<and> Len (ring_run (NewRawTCPRing 1) [OpPut 1 ''a'']) = 1
   \<and> map_option snd (Put 1 (ring_run (NewRawTCPRing 1) [OpPut 1 ''a'']) ''b'') = Some PutOk
   \<and> map_option snd (Offer 1 (ring_run (NewRawTCPRing 1) [OpPut 1 ''a'']) ''b'') = Some PutOk
   \<and> Len (ring_run (NewRawTCPRing 1) [OpPut 1 ''a'', OpPut 1 ''b'']) = 2
   \<and> Cap (ring_run (NewRawTCPRing 1) [OpPut 1 ''a'', OpPut 1 ''b'']) = 1
   \<and> map data (nodes (ring_run (NewRawTCPRing 1) [OpPut 1 ''a'', OpPut 1 ''b''])) = [Some ''b'']"
  by (simp add: NewRawTCPRing_1 ring_run_def after_call_def Put_def Offer_def put_def
        put_iter_def Len_def Cap_def Let_def)




subsection \<open>The TCP frame splitter\<close>

lemma wrap64_id: "- (2 ^ 63) \<le> x \<Longrightarrow> x < 2 ^ 63 \<Longrightarrow> wrap64 x = x"
  by (simp add: wrap64_def)

lemma IndexAny_pos:
  assumes "t \<noteq> []" "\<not> in_cutset (hd t)"
  shows "IndexAny t ('' '' @ [LF]) \<noteq> 0"
proof -
  obtain c cs where t: "t = c # cs" using assms(1) by (cases t) auto
  with assms(2) have "c \<noteq> CHR '' ''" "c \<noteq> LF" by (auto simp: in_cutset_def)
  with t show ?thesis by (auto simp: IndexAny_def list_ex_iff)
qed

lemma IndexAny_le: "IndexAny t cs \<le> int (length t)"
proof -
  have "length (takeWhile (\<lambda>x. x \<notin> set cs) t) \<le> length t" by (rule length_takeWhile_le)
  then show ?thesis by (simp add: IndexAny_def)
qed

lemma TrimLeft_hd: "TrimLeft bytes \<noteq> [] \<Longrightarrow> \<not> in_cutset (hd (TrimLeft bytes))"
  unfolding TrimLeft_def by (rule hd_dropWhile)

lemma trim_both_nonempty:
  assumes "t \<noteq> []" "\<not> in_cutset (hd t)"
  shows "trim_both t \<noteq> []"
proof -
  obtain c cs where t: "t = c # cs" using assms(1) by (cases t) auto
  with assms(2) have d: "dropWhile in_cutset t = t" by simp
  have "c \<in> set (rev t)" using t by simp
  with assms(2) t have "dropWhile in_cutset (rev t) \<noteq> []"
    by (metis dropWhile_eq_Nil_conv list.sel(1))
  with d show ?thesis by (simp add: trim_both_def)
qed

lemma slice_prefix: "0 \<le> n \<Longrightarrow> n \<le> int (length s) \<Longrightarrow> slice s 0 n = Some (take (nat n) s)"
  by (simp add: slice_def)

lemma getline_LF:
  assumes "LF \<in> set t" "hd t \<noteq> LF" "0 \<le> trimmed" "trimmed + int (length t) < 2 ^ 62"
  shows "getline t trimmed eoferr =
           Ret (trimmed + IndexByte t LF + 1) (Trim (takeWhile (\<lambda>c. c \<noteq> LF) t)) False"
proof -
  let ?n = "length (takeWhile (\<lambda>c. c \<noteq> LF) t)"
  have lf: "IndexByte t LF = int ?n" using assms(1) by (simp add: IndexByte_def)
  have le: "?n \<le> length t" by (rule length_takeWhile_le)
  obtain c cs where t: "t = c # cs" using assms(1) by (cases t) auto
  with assms(2) have n0: "?n \<noteq> 0" by simp
  have tk: "take ?n t = takeWhile (\<lambda>c. c \<noteq> LF) t"
    by (metis takeWhile_eq_take)
  have sl: "slice t 0 (int ?n) = Some (takeWhile (\<lambda>c. c \<noteq> LF) t)"
    using le tk by (simp add: slice_def)
  have w: "wrap64 (int ?n + trimmed + 1) = trimmed + int ?n + 1"
    using le assms(3,4) by (subst wrap64_id) simp_all
  show ?thesis
    using n0 sl w by (simp add: getline_def lf Let_def)
qed

lemmas tcp_split_defs =
  TcpSplit_def getline_def TrimLeft_def in_cutset_def IndexAny_def IndexByte_def slice_def
  trim_both_def Trim_def Atoi_def isDigit_def digits_value_def wrap64_def LF_def CR_def Let_def

text \<open>
  The frame of an octet-counted message is trimmed. In \<open>3 a  x\<close> the count is 3 and the
  three bytes after the space are \<open>a\<close> and two spaces; the splitter consumes them (it
  advances by 5) and returns the frame \<open>a\<close>.
\<close>

lemma TcpSplit_trims_frame:
  "Atoi ''3'' = Some 3
   \<and> take 3 (drop 2 ''3 a  x'') = ''a  ''
   \<and> TcpSplit ''3 a  x'' False = Ret 5 (Some ''a'') False"
  by (simp add: tcp_split_defs)

text \<open>
  What \<open>TcpSplit\<close> of package network does on an input of less than \<open>2\<^sup>6\<^sup>2\<close> bytes whose
  first byte after the leading spaces, CRs and LFs is not \<open><\<close>; the leading token is the
  bytes up to the first space or LF, trimmed. The token is never empty. When no space or
  LF follows yet, the splitter asks for more data. When the token is a decimal number
  \<open>N \<ge> 0\<close> and \<open>N\<close> bytes follow the separator, the splitter consumes exactly these and
  returns them, trimmed, as the frame; when fewer follow and \<open>N < 2\<^sup>6\<^sup>2\<close>, it asks for
  more data. When the token is not a decimal number and the input holds an LF, it
  consumes the input up to the first LF and returns these bytes, trimmed.
\<close>

lemma TcpSplit_octet_counting:
  assumes ne: "TrimLeft bytes \<noteq> []" and lt: "hd (TrimLeft bytes) \<noteq> CHR ''<''"
    and len: "int (length bytes) < 2 ^ 62"
  shows "let t = TrimLeft bytes;
             trimmed = int (length bytes) - int (length t);
             sp = IndexAny t ('' '' @ [LF]);
             tok = trim_both (take (nat sp) t)
         in sp \<noteq> 0 \<and> (0 < sp \<longrightarrow> tok \<noteq> [])
            \<and> (sp \<le> 0 \<longrightarrow> TcpSplit bytes atEOF = Ret 0 None atEOF)
            \<and> (\<forall>N. 0 < sp \<and> Atoi tok = Some N \<and> 0 \<le> N \<and> sp + 1 + N \<le> int (length t) \<longrightarrow>
                  TcpSplit bytes atEOF =
                    Ret (trimmed + sp + 1 + N) (Trim (take (nat N) (drop (nat sp + 1) t))) False)
            \<and> (\<forall>N. 0 < sp \<and> Atoi tok = Some N \<and> 0 \<le> N \<and> N < 2 ^ 62 \<and> int (length t) < sp + 1 + N \<longrightarrow>
                  TcpSplit bytes atEOF = Ret 0 None atEOF)
            \<and> (0 < sp \<and> Atoi tok = None \<and> LF \<in> set t \<longrightarrow>
                  TcpSplit bytes atEOF =
                    Ret (trimmed + IndexByte t LF + 1) (Trim (takeWhile (\<lambda>c. c \<noteq> LF) t)) False)"
proof -
  define t where "t = TrimLeft bytes"
  define trimmed where "trimmed = int (length bytes) - int (length t)"
  define sp where "sp = IndexAny t ('' '' @ [LF])"
  define tok where "tok = trim_both (take (nat sp) t)"
  have tne: "t \<noteq> []" "length t \<noteq> 0" using ne by (simp_all add: t_def)
  have hd: "\<not> in_cutset (hd t)" using TrimLeft_hd [OF ne] by (simp add: t_def)
  have hdlt: "hd t \<noteq> CHR ''<''" using lt by (simp add: t_def)
  have tlen: "length t \<le> length bytes"
    by (simp add: t_def TrimLeft_def length_dropWhile_le)
  have tr0: "0 \<le> trimmed" using tlen by (simp add: trimmed_def)
  have sp0: "sp \<noteq> 0" unfolding sp_def by (rule IndexAny_pos [OF tne(1) hd])
  have sple: "sp \<le> int (length t)" unfolding sp_def by (rule IndexAny_le)
  have tokne: "tok \<noteq> []" if "0 < sp"
  proof -
    from that tne have "take (nat sp) t \<noteq> []" by simp
    moreover have "hd (take (nat sp) t) = hd t" using that by (simp add: hd_take)
    ultimately show ?thesis unfolding tok_def using hd by (intro trim_both_nonempty) simp_all
  qed
  have tokeq: "(case slice t 0 sp of None \<Rightarrow> [] | Some u \<Rightarrow> trim_both u) = tok" if "0 < sp"
    using that sple by (simp add: slice_prefix tok_def)
  have unfold: "TcpSplit bytes atEOF =
      (if sp \<le> 0 then Ret 0 None atEOF
       else case Atoi tok of
              None \<Rightarrow> getline t trimmed atEOF
            | Some datalen \<Rightarrow>
                if int (length bytes) < wrap64 (trimmed + sp + 1 + datalen) then Ret 0 None atEOF
                else case slice t (sp + 1) (wrap64 (sp + 1 + datalen)) of
                       None \<Rightarrow> SplitPanic
                     | Some u \<Rightarrow> Ret (wrap64 (trimmed + sp + 1 + datalen)) (Trim u) False)"
    unfolding TcpSplit_def Let_def
    unfolding t_def [symmetric]
    unfolding trimmed_def [symmetric] sp_def [symmetric]
    using tne hdlt tokeq sp0 by (cases "sp \<le> 0") simp_all
  have a: "TcpSplit bytes atEOF = Ret 0 None atEOF" if "sp \<le> 0"
    using that by (simp add: unfold)
  have b: "TcpSplit bytes atEOF =
             Ret (trimmed + sp + 1 + N) (Trim (take (nat N) (drop (nat sp + 1) t))) False"
    if "0 < sp" "Atoi tok = Some N" "0 \<le> N" "sp + 1 + N \<le> int (length t)" for N
  proof -
    have adv: "trimmed + sp + 1 + N \<le> int (length bytes)"
      using that(4) by (simp add: trimmed_def)
    have w1: "wrap64 (trimmed + sp + 1 + N) = trimmed + sp + 1 + N"
      using adv len tr0 that(1,3) by (subst wrap64_id) simp_all
    have w2: "wrap64 (sp + 1 + N) = sp + 1 + N"
      using adv len tr0 that(1,3) by (subst wrap64_id) simp_all
    have sl: "slice t (sp + 1) (sp + 1 + N) = Some (take (nat N) (drop (nat sp + 1) t))"
      using that(1,3,4) by (simp add: slice_def nat_add_distrib)
    show ?thesis
      using that(1,2) adv by (simp add: unfold w1 w2 sl)
  qed
  have c: "TcpSplit bytes atEOF = Ret 0 None atEOF"
    if "0 < sp" "Atoi tok = Some N" "0 \<le> N" "N < 2 ^ 62" "int (length t) < sp + 1 + N" for N
  proof -
    have "trimmed + sp \<le> int (length bytes)" using sple by (simp add: trimmed_def)
    then have w1: "wrap64 (trimmed + sp + 1 + N) = trimmed + sp + 1 + N"
      using len tr0 that(1,3,4) by (subst wrap64_id) simp_all
    have "int (length bytes) < trimmed + sp + 1 + N"
      using that(5) by (simp add: trimmed_def)
    then show ?thesis
      using that(1,2) by (simp add: unfold w1)
  qed
  have d: "TcpSplit bytes atEOF =
             Ret (trimmed + IndexByte t LF + 1) (Trim (takeWhile (\<lambda>c. c \<noteq> LF) t)) False"
    if "0 < sp" "Atoi tok = None" "LF \<in> set t"
  proof -
    have "hd t \<noteq> LF" using hd by (auto simp: in_cutset_def)
    moreover have "trimmed + int (length t) < 2 ^ 62" using len by (simp add: trimmed_def)
    ultimately have "getline t trimmed atEOF =
        Ret (trimmed + IndexByte t LF + 1) (Trim (takeWhile (\<lambda>c. c \<noteq> LF) t)) False"
      using that(3) tr0 by (intro getline_LF)
    then show ?thesis using that(1,2) by (simp add: unfold)
  qed
  from sp0 tokne a b c d show ?thesis
    unfolding Let_def t_def [symmetric] trimmed_def [symmetric] sp_def [symmetric] tok_def [symmetric]
    by blast
qed

lemma TcpSplit_octet_counting_examples:
  "TcpSplit ''5 hello'' False = Ret 7 (Some ''hello'') False
   \<and> TcpSplit (''abc def'' @ [LF] @ ''zz'') False = Ret 8 (Some ''abc def'') False
   \<and> TcpSplit ''10 abc'' False = Ret 0 None False"
  by (simp add: tcp_split_defs)

text \<open>
  Outside these cases the splitter panics: on a line that starts with \<open><\<close> and has no LF
  yet, on a negative count, and on a count so large that the sum \<open>advance\<close> wraps
  around; the slice expression is out of range then.
\<close>

lemma TcpSplit_panics:
  "TcpSplit ''<14>hel'' False = SplitPanic"
  "TcpSplit ''-1 abc'' False = SplitPanic"
  "TcpSplit ''9223372036854775807 x'' False = SplitPanic"
  by (simp_all add: tcp_split_defs)

text \<open>
  Claim C3. On an input whose first byte is not \<open><\<close> and whose leading token is not a
  decimal number, the splitter is to fall back to LF framing and return the bytes up to
  the next LF. It does not on the partial line \<open>abc d\<close>, the start of a line whose LF
  has not arrived yet: the token \<open>abc\<close> is not a number, \<open>TcpSplit\<close> of package network
  calls \<open>getline\<close>, which finds no LF (the index is -1), tests \<open>lf == 0\<close> only, and slices
  \<open>data[0:-1]\<close>: it panics. LF framing waits for the LF there: the split function of
  \<open>makeLFTCPSplit\<close>, which tests \<open>lf < 1\<close>, asks for more data on the same input, and so
  does \<open>getline\<close> itself when the line is complete. The older \<open>TcpSplit\<close> of package
  server never falls back: on the complete line \<open>abc def\<close> it returns the error of
  \<open>strconv.Atoi\<close>, where that of package network returns the line.
\<close>

theorem C3_fallback_without_LF_panics:
  "hd (TrimLeft ''abc d'') \<noteq> CHR ''<''
   \<and> IndexAny (TrimLeft ''abc d'') ('' '' @ [LF]) = 3
   \<and> Atoi ''abc'' = None
   \<and> IndexByte ''abc d'' LF = - 1
   \<and> getline ''abc d'' 0 False = SplitPanic
   \<and> TcpSplit ''abc d'' False = SplitPanic
   \<and> LFTCPSplit LF ''abc d'' False = Ret 0 None False
   \<and> TcpSplit (''abc def'' @ [LF]) False = Ret 8 (Some ''abc def'') False
   \<and> TcpSplit_server (''abc def'' @ [LF]) False = Inl ()"
  by (simp add: TcpSplit_server_def LFTCPSplit_def tcp_split_defs)

subsection \<open>The handler of a TCP connection\<close>

lemma trim_both_length: "length (trim_both u) \<le> length u"
proof -
  have "length (dropWhile in_cutset (rev (dropWhile in_cutset u))) \<le> length (rev (dropWhile in_cutset u))"
    by (rule length_dropWhile_le)
  also have "\<dots> \<le> length u" by (simp add: length_dropWhile_le)
  finally show ?thesis by (simp add: trim_both_def)
qed

lemma Trim_length: "Trim u = Some tok \<Longrightarrow> length tok \<le> length u"
  using trim_both_length [of u] by (auto simp: Trim_def split: if_splits)

lemma slice_length:
  "slice s lo hi = Some u \<Longrightarrow> length u \<le> nat (hi - lo) \<and> 0 \<le> lo \<and> lo \<le> hi \<and> hi \<le> int (length s)"
  by (auto simp: slice_def split: if_splits)

lemma takeWhile_neq_shorter: "c \<in> set s \<Longrightarrow> length (takeWhile (\<lambda>x. x \<noteq> c) s) < length s"
  by (induction s) auto

lemma IndexByte_lt: "IndexByte s c < int (length s)"
proof (cases "c \<in> set s")
  case True
  with takeWhile_neq_shorter [OF True] show ?thesis by (simp add: IndexByte_def)
next
  case False
  then show ?thesis by (simp add: IndexByte_def)
qed

lemma getline_token:
  assumes "getline t trimmed e = Ret adv (Some tok) e'"
  shows "length tok < length t"
proof -
  from assms obtain line where l: "slice t 0 (IndexByte t LF) = Some line" "Trim line = Some tok"
    by (auto simp: getline_def Let_def split: if_splits option.splits)
  from slice_length [OF l(1)] IndexByte_lt [of t LF] have "length line < length t" by linarith
  with Trim_length [OF l(2)] show ?thesis by simp
qed

lemma TrimLeft_length: "length (TrimLeft bytes) \<le> length bytes"
  by (simp add: TrimLeft_def length_dropWhile_le)

lemma TcpSplit_token_shorter:
  assumes "TcpSplit bytes atEOF = Ret adv (Some tok) e"
  shows "length tok < length bytes"
proof -
  let ?t = "TrimLeft bytes"
  let ?sp = "IndexAny ?t ('' '' @ [LF])"
  from assms consider
      (line) tr where "getline ?t tr atEOF = Ret adv (Some tok) e"
    | (count) hi u where "0 < ?sp" "slice ?t (?sp + 1) hi = Some u" "Trim u = Some tok"
    by (auto simp: TcpSplit_def Let_def split: if_splits option.splits)
  then show ?thesis
  proof cases
    case line
    from getline_token [OF this] TrimLeft_length [of bytes] show ?thesis by simp
  next
    case count
    from slice_length [OF count(2)] count(1) have "length u < length ?t" by linarith
    with Trim_length [OF count(3)] TrimLeft_length [of bytes] show ?thesis by simp
  qed
qed

lemma LFTCPSplit_token_shorter:
  assumes "LFTCPSplit delim bytes atEOF = Ret adv (Some tok) e"
  shows "length tok < length bytes"
proof -
  let ?t = "TrimLeft bytes"
  from assms obtain line where l: "slice ?t 0 (IndexByte ?t delim) = Some line" "Trim line = Some tok"
    by (auto simp: LFTCPSplit_def Let_def split: if_splits option.splits)
  from slice_length [OF l(1)] IndexByte_lt [of ?t delim] have "length line < length ?t" by linarith
  with Trim_length [OF l(2)] TrimLeft_length [of bytes] show ?thesis by simp
qed


lemma setErr_fields [simp]:
  "s_buf (setErr e s) = s_buf s" "s_start (setErr e s) = s_start s" "s_end (setErr e s) = s_end s"
  "s_maxTokenSize (setErr e s) = s_maxTokenSize s" "s_token (setErr e s) = s_token s"
  by (simp_all add: setErr_def)

lemma scanner_inv_setErr [simp]: "scanner_inv (setErr e s) = scanner_inv s"
  by (simp add: scanner_inv_def)

lemma read_loop_inv:
  "scanner_inv s \<Longrightarrow>
     scanner_inv (read_loop c loop s) \<and> s_maxTokenSize (read_loop c loop s) = s_maxTokenSize s"
proof (induction c loop s rule: read_loop.induct)
  case (1 loop s)
  then show ?case by (simp add: scanner_inv_def)
next
  case (2 rest loop s)
  then show ?case by (simp add: scanner_inv_def)
next
  case (3 chunk rest loop s)
  let ?n = "min (length chunk) (length (s_buf s) - s_end s)"
  show ?case
  proof (cases "?n > 0")
    case True
    with 3(2) show ?thesis
      by (auto simp: scanner_inv_def Let_def min_def)
  next
    case False
    note n0 = this
    show ?thesis
    proof (cases "chunk \<noteq> [] \<or> loop + 1 > 100")
      case True
      with n0 3(2) show ?thesis by (auto simp: Let_def scanner_inv_def)
    next
      case False
      have "scanner_inv (s\<lparr>s_conn := rest\<rparr>)" using 3(2) by (simp add: scanner_inv_def)
      with 3(1) [OF refl] n0 False show ?thesis by (simp add: Let_def)
    qed
  qed
qed

lemma fill_inv:
  assumes "scanner_inv s" "fill s = Inr s'"
  shows "scanner_inv s' \<and> s_maxTokenSize s' = s_maxTokenSize s"
proof -
  define s1 where "s1 = (if s_start s > 0 \<and> (s_end s = length (s_buf s) \<or> s_start s > length (s_buf s) div 2)
                     then s\<lparr>s_buf := take (s_end s - s_start s) (drop (s_start s) (s_buf s))
                                      @ drop (s_end s - s_start s) (s_buf s),
                            s_end := s_end s - s_start s, s_start := 0\<rparr>
                     else s)"
  have i1: "scanner_inv s1" "s_maxTokenSize s1 = s_maxTokenSize s"
    using assms(1) by (auto simp: s1_def scanner_inv_def)
  show ?thesis
  proof (cases "s_end s1 = length (s_buf s1)")
    case False
    with assms(2) have "s' = read_loop (s_conn s1) 0 s1"
      by (auto simp: fill_def Let_def s1_def [symmetric] split: if_splits)
    with read_loop_inv [OF i1(1)] i1(2) show ?thesis by simp
  next
    case True
    define newSize where "newSize = (if length (s_buf s1) * 2 = 0 then startBufSize
                                     else length (s_buf s1) * 2)"
    define newSize' where "newSize' = (if int newSize > s_maxTokenSize s1 then nat (s_maxTokenSize s1)
                                      else newSize)"
    define s2 where "s2 = s1\<lparr>s_buf := take (s_end s1 - s_start s1) (drop (s_start s1) (s_buf s1))
                                           @ replicate (newSize' - (s_end s1 - s_start s1)) (CHR 0x00),
                                  s_end := s_end s1 - s_start s1, s_start := 0\<rparr>"
    from assms(2) True have lt: "int (length (s_buf s1)) < s_maxTokenSize s1"
      and s': "s' = read_loop (s_conn s2) 0 s2"
      by (auto simp: fill_def Let_def s1_def [symmetric] newSize_def newSize'_def s2_def split: if_splits)
    have "length (s_buf s1) \<le> newSize'"
      using lt by (auto simp: newSize'_def newSize_def startBufSize_def)
    moreover have "int newSize' \<le> s_maxTokenSize s1"
      using lt by (auto simp: newSize'_def)
    ultimately have "scanner_inv s2" "s_maxTokenSize s2 = s_maxTokenSize s1"
      using i1(1) by (auto simp: s2_def scanner_inv_def)
    with read_loop_inv [of s2] s' i1(2) show ?thesis by simp
  qed
qed

lemma Scan_token_shorter:
  assumes "short_tokens split"
  shows "scanner_inv s \<Longrightarrow> Scan fuel split s = Some (s', ScanTrue) \<Longrightarrow>
           (\<exists>tok. s_token s' = Some tok \<and> int (length tok) < s_maxTokenSize s)
           \<and> scanner_inv s' \<and> s_maxTokenSize s' = s_maxTokenSize s"
proof (induction fuel arbitrary: s)
  case 0
  then show ?case by simp
next
  case (Suc fuel)
  let ?w = "take (s_end s - s_start s) (drop (s_start s) (s_buf s))"
  have "length ?w \<le> length (s_buf s)" by simp
  then have wlen: "int (length ?w) \<le> s_maxTokenSize s"
    using Suc.prems(1) unfolding scanner_inv_def by linarith
  have more: ?case if f: "fill s1 = Inr s2" and r: "Scan fuel split s2 = Some (s', ScanTrue)"
    and i: "scanner_inv s1" and m: "s_maxTokenSize s1 = s_maxTokenSize s" for s1 s2
  proof -
    from fill_inv [OF i f] have "scanner_inv s2" "s_maxTokenSize s2 = s_maxTokenSize s1" by simp_all
    with Suc.IH [OF this(1) r] m show ?thesis by simp
  qed
  show ?case
  proof (cases "s_end s > s_start s \<or> s_err s \<noteq> None")
    case False
    with Suc.prems(2) obtain s2 where "fill s = Inr s2" "Scan fuel split s2 = Some (s', ScanTrue)"
      by (auto split: sum.splits)
    from more [OF this Suc.prems(1) refl] show ?thesis .
  next
    case True
    show ?thesis
    proof (cases "split ?w (s_err s \<noteq> None)")
      case SplitPanic
      with True Suc.prems(2) show ?thesis by simp
    next
      case (Ret advance token err)
      with True Suc.prems(2) have ok: "\<not> err" "0 \<le> advance" "advance \<le> int (s_end s - s_start s)"
        by (auto split: if_splits)
      define s1 where "s1 = s\<lparr>s_start := s_start s + nat advance, s_token := token\<rparr>"
      have i1: "scanner_inv s1" "s_maxTokenSize s1 = s_maxTokenSize s"
        using Suc.prems(1) ok by (auto simp: s1_def scanner_inv_def)
      show ?thesis
      proof (cases token)
        case None
        with True Ret ok Suc.prems(2) obtain s2 where "fill s1 = Inr s2" "Scan fuel split s2 = Some (s', ScanTrue)"
          by (auto simp: s1_def Let_def split: sum.splits if_splits)
        from more [OF this i1] show ?thesis .
      next
        case (Some tok)
        from assms have "split ?w (s_err s \<noteq> None) = Ret advance (Some tok) err
                           \<Longrightarrow> length tok < length ?w"
          unfolding short_tokens_def by blast
        with Ret Some have "length tok < length ?w" by blast
        with wlen have tl: "int (length tok) < s_maxTokenSize s" by linarith
        from True Ret ok Some Suc.prems(2) have "s' = s1\<lparr>s_empties := 0\<rparr> \<or> s' = s1\<lparr>s_empties := s_empties s1 + 1\<rparr>"
          by (auto simp: s1_def Let_def split: if_splits)
        then have "s_token s' = Some tok" "scanner_inv s'" "s_maxTokenSize s' = s_maxTokenSize s"
          using i1 Some by (auto simp: s1_def scanner_inv_def)
        with tl show ?thesis by simp
      qed
    qed
  qed
qed

lemma Put_items:
  assumes "Put fuel rb item = Some (rb', res)"
  shows "data ` set (nodes rb') \<subseteq> insert (Some item) (data ` set (nodes rb))"
proof -
  from assms put_loop_Some [of fuel rb item False "queue rb" "(rb', res)"]
  obtain pos where p: "put_iter rb item False pos = Inl (rb', res)"
    by (auto simp: Put_def put_def)
  show ?thesis
  proof (cases "res = PutOk")
    case False
    with put_iter_unchanged [OF p] show ?thesis by auto
  next
    case True
    with p obtain i n where "nodes rb' = (nodes rb)[i := n]" "data n = Some item"
      by (auto simp: put_iter_def Let_def split: if_splits)
    moreover have "set ((nodes rb)[i := n]) \<subseteq> insert n (set (nodes rb))"
      by (rule set_update_subset_insert)
    ultimately show ?thesis by auto
  qed
qed

lemma handle_frames_enqueues_short:
  assumes short: "short_tokens split"
  shows "scanner_inv sc \<Longrightarrow> s_maxTokenSize sc = MaxMessageSize s \<Longrightarrow>
     handle_frames frames fuel split config p s sc = Some (s', sc', e) \<Longrightarrow>
     MaxMessageSize s' = MaxMessageSize s \<and>
     (\<forall>m. Some m \<in> data ` set (nodes (rawMessagesQueue s')) \<longrightarrow>
          Some m \<in> data ` set (nodes (rawMessagesQueue s))
          \<or> int (length (Message m)) < MaxMessageSize s)"
proof (induction frames arbitrary: s sc)
  case 0
  then show ?case by simp
next
  case (Suc frames)
  show ?case
  proof (cases "Scan fuel split sc")
    case None
    with Suc.prems(3) show ?thesis by simp
  next
    case (Some r)
    obtain sc1 res where r: "r = (sc1, res)" by (cases r)
    show ?thesis
    proof (cases res)
      case ScanPanic
      with Some r Suc.prems(3) show ?thesis by auto
    next
      case ScanFalse
      with Some r Suc.prems(3) show ?thesis by auto
    next
      case ScanTrue
      with Some r have sc: "Scan fuel split sc = Some (sc1, ScanTrue)" by simp
      from Scan_token_shorter [OF short Suc.prems(1) sc] obtain tok where
        tok: "s_token sc1 = Some tok" "int (length tok) < s_maxTokenSize sc"
        and i1: "scanner_inv sc1" "s_maxTokenSize sc1 = s_maxTokenSize sc"
        by blast
      have m1: "s_maxTokenSize sc1 = MaxMessageSize s" using i1(2) Suc.prems(2) by simp
      show ?thesis
      proof (cases "length tok = 0")
        case True
        with sc tok Suc.prems(3) have "handle_frames frames fuel split config p s sc1 = Some (s', sc', e)"
          by simp
        from Suc.IH [OF i1(1) m1 this] show ?thesis .
      next
        case False
        note ne = this
        define rawmsg where "rawmsg = \<lparr>Message = tok, Client = client p, LocalPort = localPortInt p,
                                   UnixSocketPath = path p, ConfID = cfg_ConfID config,
                                   Decoder = DecoderBaseConfig config\<rparr>"
        have small: "\<not> (MaxMessageSize s > 0 \<and> int (length tok) > MaxMessageSize s)"
          using tok(2) Suc.prems(2) by simp
        have "handle_frames (Suc frames) fuel split config p s sc =
                (case Put fuel (rawMessagesQueue s) rawmsg of
                   None \<Rightarrow> None
                 | Some (rb, PutOk) \<Rightarrow>
                     handle_frames frames fuel split config p
                       (s\<lparr>rawMessagesQueue := rb,
                          IncomingMsgsCounter := IncomingMsgsCounter s + 1\<rparr>) sc1
                 | Some (rb, PutPanic) \<Rightarrow> Some (s, sc1, Panicked)
                 | Some (rb, other) \<Rightarrow> Some (s, sc1, QueueDisposed))"
          using sc tok(1) ne small by (auto simp: Let_def rawmsg_def)
        with Suc.prems(3) have step:
          "(case Put fuel (rawMessagesQueue s) rawmsg of
                   None \<Rightarrow> None
                 | Some (rb, PutOk) \<Rightarrow>
                     handle_frames frames fuel split config p
                       (s\<lparr>rawMessagesQueue := rb,
                          IncomingMsgsCounter := IncomingMsgsCounter s + 1\<rparr>) sc1
                 | Some (rb, PutPanic) \<Rightarrow> Some (s, sc1, Panicked)
                 | Some (rb, other) \<Rightarrow> Some (s, sc1, QueueDisposed)) = Some (s', sc', e)"
          by simp
        show ?thesis
        proof (cases "Put fuel (rawMessagesQueue s) rawmsg")
          case None
          with step show ?thesis by simp
        next
          case (Some pr)
          obtain rb pres where pr: "pr = (rb, pres)" by (cases pr)
          show ?thesis
          proof (cases "pres = PutOk")
            case False
            with Some pr step have "s' = s"
              by (cases pres) auto
            then show ?thesis by simp
          next
            case True
            define s1 where "s1 = s\<lparr>rawMessagesQueue := rb,
                                IncomingMsgsCounter := IncomingMsgsCounter s + 1\<rparr>"
            from True Some pr step
            have run: "handle_frames frames fuel split config p s1 sc1 = Some (s', sc', e)"
              by (simp add: s1_def)
            have m: "s_maxTokenSize sc1 = MaxMessageSize s1" using m1 by (simp add: s1_def)
            from Suc.IH [OF i1(1) m run]
            have a: "MaxMessageSize s' = MaxMessageSize s1"
              and b: "\<And>m. Some m \<in> data ` set (nodes (rawMessagesQueue s')) \<Longrightarrow>
                      Some m \<in> data ` set (nodes (rawMessagesQueue s1))
                      \<or> int (length (Message m)) < MaxMessageSize s1"
              by blast+
            from Put_items [of fuel "rawMessagesQueue s" rawmsg rb pres] Some pr
            have c: "data ` set (nodes rb) \<subseteq> insert (Some rawmsg) (data ` set (nodes (rawMessagesQueue s)))"
              by simp
            have d: "int (length (Message rawmsg)) < MaxMessageSize s"
              using tok(2) Suc.prems(2) by (simp add: rawmsg_def)
            show ?thesis
            proof (intro conjI allI impI)
              show "MaxMessageSize s' = MaxMessageSize s" using a by (simp add: s1_def)
            next
              fix m assume "Some m \<in> data ` set (nodes (rawMessagesQueue s'))"
              from b [OF this] have "Some m \<in> data ` set (nodes rb) \<or> int (length (Message m)) < MaxMessageSize s"
                by (simp add: s1_def)
              with c d show "Some m \<in> data ` set (nodes (rawMessagesQueue s))
                             \<or> int (length (Message m)) < MaxMessageSize s"
                by auto
            qed
          qed
        qed
      qed
    qed
  qed
qed

lemma short_tokens_TcpSplit: "short_tokens TcpSplit"
  unfolding short_tokens_def using TcpSplit_token_shorter by blast

lemma short_tokens_LFTCPSplit: "short_tokens (LFTCPSplit delim)"
  unfolding short_tokens_def using LFTCPSplit_token_shorter by blast

lemma NewScanner_Buffer_inv: "scanner_inv (NewScanner_Buffer n c)"
  by (simp add: scanner_inv_def NewScanner_Buffer_def)

lemma HandleConnection_never_enqueues_max:
  assumes "HandleConnection frames fuel config p s c = Some (s', e)"
    and "Some m \<in> data ` set (nodes (rawMessagesQueue s'))"
  shows "Some m \<in> data ` set (nodes (rawMessagesQueue s))
         \<or> int (length (Message m)) < MaxMessageSize s"
proof (cases "MaxMessageSize s < 0 \<or> (LineFraming config \<and> FrameDelimiter config = [])")
  case True
  with assms have "s' = s" by (auto simp: HandleConnection_def split: if_splits)
  with assms(2) show ?thesis by simp
next
  case False
  define split where "split = (if LineFraming config then LFTCPSplit (hd (FrameDelimiter config))
                        else TcpSplit)"
  define sc where "sc = NewScanner_Buffer (nat (MaxMessageSize s)) c"
  from False assms(1) obtain sc' where
    run: "handle_frames frames fuel split config p s sc = Some (s', sc', e)"
    by (auto simp: HandleConnection_def Let_def split_def sc_def)
  have sh: "short_tokens split"
    by (simp add: split_def short_tokens_TcpSplit short_tokens_LFTCPSplit)
  have i: "scanner_inv sc" unfolding sc_def by (rule NewScanner_Buffer_inv)
  have m: "s_maxTokenSize sc = MaxMessageSize s"
    using False by (simp add: sc_def NewScanner_Buffer_def)
  from handle_frames_enqueues_short [OF sh i m run] assms(2) show ?thesis by blast
qed

lemmas handler_defs =
  HandleConnection_def NewScanner_Buffer_def fill_def setErr_def Put_def put_def put_iter_def
  example_config_def example_peer_def example_service_def NewRawTCPRing_2 LFTCPSplit_def

text \<open>
  Claim C4 fails on its first half. The guard of the handler lets a frame of exactly
  \<open>MaxMessageSize\<close> bytes through, but the scanner is given a buffer of \<open>MaxMessageSize\<close>
  bytes that may not grow, and a frame must fit there together with its length prefix or
  its delimiter. With \<open>max_input_message_size = 8\<close>: the octet-counted frame
  \<open>8 abcdefgh\<close> (a message of exactly 8 bytes) is not enqueued, the scanner stops with
  \<open>ErrTooLong\<close> and the handler returns, which closes the connection; so does the line
  \<open>abcdefgh\<close> under LF framing. The shorter frame \<open>6 abcdef\<close> is enqueued. In general
  (\<open>HandleConnection_never_enqueues_max\<close>) every message the handler enqueues is shorter
  than \<open>MaxMessageSize\<close>.
\<close>

theorem C4_frame_of_exactly_max_is_refused:
  "HandleConnection 2 2 example_config example_peer example_service [Bytes ''8 abcdefgh'']
     = Some (example_service, ScanEnded)
   \<and> HandleConnection 2 2 (example_config\<lparr>LineFraming := True\<rparr>) example_peer example_service
       [Bytes (''abcdefgh'' @ [LF])]
     = Some (example_service, ScanEnded)
   \<and> map_option (\<lambda>(s, e). (Len (rawMessagesQueue s), e))
       (HandleConnection 3 3 example_config example_peer example_service [Bytes ''6 abcdef''])
     = Some (1, ScanEnded)"
  by (simp add: handler_defs tcp_split_defs Len_def eval_nat_numeral)

subsection \<open>The binder\<close>













lemma binder_run_append: "binder_run t (xs @ ys) = binder_run (binder_run t xs) ys"
  by (simp add: binder_run_def)


lemma close_all_stream:
  assumes "running t"
  shows "connections (binder_step t (FromSchan \<lparr>Uid = [], Conn = None, Addr = a\<rparr> file)) = Map.empty"
    "ran (connections t) \<subseteq> closed_conns (binder_step t (FromSchan \<lparr>Uid = [], Conn = None, Addr = a\<rparr> file))"
    "\<forall>uid \<in> dom (connections t). connfiles (binder_step t (FromSchan \<lparr>Uid = [], Conn = None, Addr = a\<rparr> file)) uid = None"
  using assms by (auto simp: binder_step_def on_schan_def)















subsection \<open>The writer of RELP responses\<close>

lemma received_txnrs_append:
  "received_txnrs connID (evs @ evs') = received_txnrs connID evs @ received_txnrs connID evs'"
  by (induction connID evs rule: received_txnrs.induct) simp_all

lemma received_txnrs_snoc:
  "received_txnrs connID (evs @ [ev]) = received_txnrs connID evs @ new_txnr connID ev"
  by (cases ev) (simp_all add: received_txnrs_append)

lemma pending_Received:
  "pending (Received f c txnr) connID =
     (if c = connID then map_option (\<lambda>xs. xs @ [txnr]) (pending f connID) else pending f connID)"
  by (auto simp: pending_def Received_def IntQueue_Put_def Disposed_def split: option.splits)

lemma pending_ForwardSucc: "pending (ForwardSucc f c txnr) connID = pending f connID"
  by (auto simp: pending_def ForwardSucc_def split: option.splits)

lemma pending_ForwardFail: "pending (ForwardFail f c txnr) connID = pending f connID"
  by (auto simp: pending_def ForwardFail_def split: option.splits)

lemma pending_RemoveConn:
  "pending (RemoveConn f c) connID = (if c = connID then None else pending f connID)"
  by (auto simp: pending_def RemoveConn_def split: option.splits)

lemma pending_GetSucc: "pending (fst (GetSucc f c)) connID = pending f connID"
  by (auto simp: pending_def GetSucc_def split: option.splits prod.splits)

lemma pending_GetFail: "pending (fst (GetFail f c)) connID = pending f connID"
  by (auto simp: pending_def GetFail_def split: option.splits prod.splits)

lemma pending_Commit: "pending (Commit f connID) connID = map_option tl (pending f connID)"
  by (auto simp: pending_def Commit_def IntQueue_Get_def Disposed_def
           split: option.splits list.splits)

lemma NextToCommit_pending:
  "NextToCommit f connID =
     (case pending f connID of None \<Rightarrow> - 1 | Some [] \<Rightarrow> - 1 | Some (x # xs) \<Rightarrow> x)"
  by (auto simp: pending_def NextToCommit_def IntQueue_Peek_def split: option.splits list.splits)

lemma pending_AddConn: "pending (AddConn f connID) connID = Some []"
  by (simp add: pending_def AddConn_def NewIntQueue_def Disposed_def)

lemma start_connection_inv: "relp_inv connID [] (start_connection f connID)"
  by (simp add: relp_inv_def order_inv_def maps_inv_def start_connection_def pending_AddConn
        written_txnrs_def)

lemma butlast_append_hd:
  assumes "ws \<noteq> []" "xs \<noteq> []" "hd xs = last ws"
  shows "butlast ws @ xs = ws @ tl xs"
proof -
  have "butlast ws @ xs = butlast ws @ ([last ws] @ tl xs)"
    using assms(2,3) by (cases xs) simp_all
  also have "\<dots> = (butlast ws @ [last ws]) @ tl xs" by simp
  also have "\<dots> = ws @ tl xs" using assms(1) by simp
  finally show ?thesis .
qed

lemma order_inv_prefix:
  assumes "order_inv p c W R"
  shows "\<exists>rest. R = W @ rest"
proof (cases p)
  case None
  then show ?thesis using assms by (simp add: order_inv_def)
next
  case (Some xs)
  show ?thesis
  proof (cases "c = AtCommit")
    case False
    then show ?thesis using assms Some by (auto simp: order_inv_def)
  next
    case True
    then have w: "W \<noteq> []" "xs \<noteq> []" "hd xs = last W" "butlast W @ xs = R"
      using assms Some by (auto simp: order_inv_def)
    from butlast_append_hd [OF w(1,2,3)] w(4) show ?thesis by auto
  qed
qed

lemma order_inv_None: "order_inv p c W R \<Longrightarrow> order_inv None c' W R"
  using order_inv_prefix [of p c W R] by (simp add: order_inv_def)

lemma order_inv_grow:
  "order_inv p c W R \<Longrightarrow> order_inv (map_option (\<lambda>xs. xs @ [txnr]) p) c W (R @ [txnr])"
  by (cases p) (auto simp: order_inv_def)

lemma order_inv_pc:
  "order_inv p c W R \<Longrightarrow> c \<noteq> AtCommit \<Longrightarrow> c' \<noteq> AtCommit \<Longrightarrow> order_inv p c' W R"
  by (cases p) (auto simp: order_inv_def)

lemma order_inv_write:
  "order_inv (Some (x # xs)) c W R \<Longrightarrow> c \<noteq> AtCommit
   \<Longrightarrow> order_inv (Some (x # xs)) AtCommit (W @ [x]) R"
  by (auto simp: order_inv_def)

lemma order_inv_commit:
  assumes "order_inv p AtCommit W R"
  shows "order_inv (map_option tl p) AtNextToCommit W R"
proof (cases p)
  case None
  then show ?thesis using assms by (simp add: order_inv_def)
next
  case (Some xs)
  then have w: "W \<noteq> []" "xs \<noteq> []" "hd xs = last W" "butlast W @ xs = R"
    using assms by (auto simp: order_inv_def)
  from butlast_append_hd [OF w(1,2,3)] w(4) show ?thesis using Some
    by (simp add: order_inv_def)
qed

lemma Received_inv:
  assumes "relp_inv connID R s"
  shows "relp_inv connID (R @ new_txnr connID (EvReceived c txnr))
           (s\<lparr>forwarder := Received (forwarder s) c txnr\<rparr>)"
  using assms
  by (auto simp: relp_inv_def pending_Received written_txnrs_def intro: order_inv_grow)

lemma ForwardSucc_inv:
  assumes "relp_inv connID R s"
  shows "relp_inv connID R (s\<lparr>forwarder := ForwardSucc (forwarder s) c txnr\<rparr>)"
  using assms by (simp add: relp_inv_def pending_ForwardSucc written_txnrs_def)

lemma ForwardFail_inv:
  assumes "relp_inv connID R s"
  shows "relp_inv connID R (s\<lparr>forwarder := ForwardFail (forwarder s) c txnr\<rparr>)"
  using assms by (simp add: relp_inv_def pending_ForwardFail written_txnrs_def)

lemma RemoveConn_inv:
  assumes "relp_inv connID R s"
  shows "relp_inv connID R (s\<lparr>forwarder := RemoveConn (forwarder s) c\<rparr>)"
  using assms
  by (auto simp: relp_inv_def pending_RemoveConn written_txnrs_def intro: order_inv_None)

lemma maps_inv_new_success:
  assumes "maps_inv su fa W" "su txnr = None" "fa txnr = None"
  shows "maps_inv (su(txnr \<mapsto> True)) fa W"
  using assms by (auto simp: maps_inv_def map_read_def split: option.splits)

lemma maps_inv_new_failure:
  assumes "maps_inv su fa W" "su txnr = None" "fa txnr = None"
  shows "maps_inv su (fa(txnr \<mapsto> True)) W"
  using assms by (auto simp: maps_inv_def map_read_def split: option.splits)

lemma maps_inv_answer_success:
  assumes "maps_inv su fa W" "map_read su txnr"
  shows "maps_inv (su(txnr \<mapsto> False)) fa (W @ [txnr])"
  using assms by (auto simp: maps_inv_def map_read_def split: option.splits)

lemma maps_inv_answer_failure:
  assumes "maps_inv su fa W" "map_read fa txnr"
  shows "maps_inv su (fa(txnr \<mapsto> False)) (W @ [txnr])"
  using assms by (auto simp: maps_inv_def map_read_def split: option.splits)

lemma NextToCommit_Some:
  assumes "NextToCommit f connID \<noteq> - 1"
  shows "\<exists>xs. pending f connID = Some (NextToCommit f connID # xs)"
  using assms by (auto simp: NextToCommit_pending split: option.splits list.splits)

lemma at_Wait_inv:
  assumes "relp_inv connID R s" "pc s = AtWait"
  shows "relp_inv connID R (handleResponses_step connID err s)"
  using assms
  by (auto simp: handleResponses_step_def relp_inv_def written_txnrs_def
           split: option.splits bool.splits intro: order_inv_pc)

lemma at_GetSucc_inv:
  assumes "relp_inv connID R s" "pc s = AtGetSucc"
  shows "relp_inv connID R (handleResponses_step connID err s)"
proof -
  obtain f t where g: "GetSucc (forwarder s) connID = (f, t)" by (cases "GetSucc (forwarder s) connID")
  then have p: "pending f connID = pending (forwarder s) connID"
    using pending_GetSucc [of "forwarder s" connID connID] by simp
  have o: "order_inv (pending (forwarder s) connID) AtGetFail (written_txnrs s) R"
    using assms by (auto simp: relp_inv_def intro: order_inv_pc)
  show ?thesis using assms g p o
    by (auto simp: handleResponses_step_def relp_inv_def written_txnrs_def new_success_def
             intro: maps_inv_new_success)
qed

lemma at_GetFail_inv:
  assumes "relp_inv connID R s" "pc s = AtGetFail"
  shows "relp_inv connID R (handleResponses_step connID err s)"
proof -
  obtain f t where g: "GetFail (forwarder s) connID = (f, t)" by (cases "GetFail (forwarder s) connID")
  then have p: "pending f connID = pending (forwarder s) connID"
    using pending_GetFail [of "forwarder s" connID connID] by simp
  have o: "order_inv (pending (forwarder s) connID) AtNextToCommit (written_txnrs s) R"
    using assms by (auto simp: relp_inv_def intro: order_inv_pc)
  show ?thesis using assms g p o
    by (auto simp: handleResponses_step_def relp_inv_def written_txnrs_def new_failure_def
             intro: maps_inv_new_failure)
qed

lemma at_Commit_inv:
  assumes "relp_inv connID R s" "pc s = AtCommit"
  shows "relp_inv connID R (handleResponses_step connID err s)"
  using assms order_inv_commit [of "pending (forwarder s) connID" "written_txnrs s" R]
  by (simp add: handleResponses_step_def relp_inv_def written_txnrs_def pending_Commit)

lemma at_Returned_inv:
  assumes "relp_inv connID R s" "pc s = Returned"
  shows "relp_inv connID R (handleResponses_step connID err s)"
  using assms by (simp add: handleResponses_step_def)

lemma at_NextToCommit_inv:
  assumes "relp_inv connID R s" "pc s = AtNextToCommit"
  shows "relp_inv connID R (handleResponses_step connID err s)"
proof -
  let ?next = "NextToCommit (forwarder s) connID"
  let ?W = "written_txnrs s"
  have o: "order_inv (pending (forwarder s) connID) AtNextToCommit ?W R"
    and m: "maps_inv (successes s) (failures s) ?W"
    using assms by (simp_all add: relp_inv_def)
  have idle: "relp_inv connID R (s\<lparr>pc := c\<rparr>)" if "c \<noteq> AtCommit" for c
    using o m that by (auto simp: relp_inv_def written_txnrs_def intro: order_inv_pc)
  show ?thesis
  proof (cases "?next = - 1")
    case True
    then show ?thesis using assms idle [of AtWait] by (simp add: handleResponses_step_def Let_def)
  next
    case False
    then obtain xs where p: "pending (forwarder s) connID = Some (?next # xs)"
      using NextToCommit_Some by blast
    have o': "order_inv (pending (forwarder s) connID) AtCommit (?W @ [?next]) R"
      using o unfolding p by (rule order_inv_write) simp
    show ?thesis
    proof (cases "map_read (successes s) ?next")
      case su: True
      have "relp_inv connID R (s\<lparr>written := written s @ [Rsp200 ?next],
               successes := (successes s)(?next \<mapsto> False), pc := AtCommit\<rparr>)"
        using o' maps_inv_answer_success [OF m su] by (simp add: relp_inv_def written_txnrs_def)
      then show ?thesis using assms False su idle [of Returned] idle [of AtNextToCommit]
        by (cases err) (simp_all add: handleResponses_step_def after_write_def Let_def)
    next
      case nsu: False
      show ?thesis
      proof (cases "map_read (failures s) ?next")
        case fa: True
        have "relp_inv connID R (s\<lparr>written := written s @ [Rsp500 ?next],
                 failures := (failures s)(?next \<mapsto> False), pc := AtCommit\<rparr>)"
          using o' maps_inv_answer_failure [OF m fa] by (simp add: relp_inv_def written_txnrs_def)
        then show ?thesis using assms False nsu fa idle [of Returned] idle [of AtNextToCommit]
          by (cases err) (simp_all add: handleResponses_step_def after_write_def Let_def)
      next
        case False
        then show ?thesis using assms \<open>?next \<noteq> - 1\<close> nsu idle [of AtWait]
          by (simp add: handleResponses_step_def Let_def)
      qed
    qed
  qed
qed

lemma handleResponses_step_inv:
  assumes "relp_inv connID R s"
  shows "relp_inv connID R (handleResponses_step connID err s)"
  using assms at_Wait_inv at_GetSucc_inv at_GetFail_inv at_NextToCommit_inv at_Commit_inv
    at_Returned_inv
  by (cases "pc s") blast+

lemma relp_step_inv:
  assumes "relp_inv connID R s"
  shows "relp_inv connID (R @ new_txnr connID ev) (relp_step connID s ev)"
  using assms
  by (cases ev)
     (simp_all add: relp_step_def Received_inv [simplified] ForwardSucc_inv ForwardFail_inv
        RemoveConn_inv handleResponses_step_inv)

lemma relp_run_inv:
  assumes "relp_inv connID R s"
  shows "relp_inv connID (R @ received_txnrs connID evs) (relp_run connID s evs)"
  using assms
proof (induction evs rule: rev_induct)
  case Nil
  then show ?case by (simp add: relp_run_def)
next
  case (snoc ev evs)
  from relp_step_inv [OF snoc.IH [OF snoc.prems], of ev] show ?case
    by (simp add: relp_run_def received_txnrs_snoc)
qed

lemma sorted_wrt_less_prefix:
  fixes W :: "int list"
  assumes "sorted_wrt (<) (W @ rest)"
  shows "sorted_wrt (<) W"
  using assms by (simp add: sorted_wrt_append)

lemma sorted_distinct_strict:
  fixes W :: "int list"
  assumes "sorted W" "distinct W"
  shows "sorted_wrt (<) W"
  using assms by (induction W) (auto simp: less_le)

lemma handleResponses_step_writes_next:
  "written (handleResponses_step connID err s) = written s
   \<or> (pc s = AtNextToCommit \<and> err = WriteOk
      \<and> pc (handleResponses_step connID err s) = AtCommit
      \<and> (written (handleResponses_step connID err s)
            = written s @ [Rsp200 (NextToCommit (forwarder s) connID)]
          \<or> written (handleResponses_step connID err s)
            = written s @ [Rsp500 (NextToCommit (forwarder s) connID)]))"
proof (cases "pc s")
  case AtWait
  then show ?thesis
    by (simp add: handleResponses_step_def split: option.splits bool.splits)
next
  case AtGetSucc
  then show ?thesis
    by (simp add: handleResponses_step_def new_success_def split: prod.splits)
next
  case AtGetFail
  then show ?thesis
    by (simp add: handleResponses_step_def new_failure_def split: prod.splits)
next
  case AtNextToCommit
  then show ?thesis
    by (cases err) (simp_all add: handleResponses_step_def after_write_def Let_def)
next
  case AtCommit
  then show ?thesis by (simp add: handleResponses_step_def)
next
  case Returned
  then show ?thesis by (simp add: handleResponses_step_def)
qed

lemma handleResponses_step_commits:
  assumes "pc s = AtCommit"
  shows "handleResponses_step connID err s
           = s\<lparr>forwarder := Commit (forwarder s) connID, pc := AtNextToCommit\<rparr>"
  using assms by (simp add: handleResponses_step_def)

text \<open>
  Claim C1. Whatever happens around a RELP connection of the direct RELP service (txnrs
  recorded by the scanners, verdicts arriving in any order and for any connection,
  connections removed, writes that succeed or fail), and however the steps of
  \<open>handleResponses\<close> fall between these events: a step writes a response only for the
  txnr that is next to commit, and then goes on to commit it; the txnrs of the responses
  written are, in this order, the first of the txnrs received on the connection, so that
  a txnr is answered only after every txnr received before it; no txnr is answered
  twice; and when the client numbers its frames in increasing order, as RELP has it, the
  txnrs of the responses written are strictly increasing.
\<close>

theorem C1_relp_responses_follow_txnr_order:
  "(written (handleResponses_step connID err s) = written s
    \<or> (pc (handleResponses_step connID err s) = AtCommit
       \<and> (written (handleResponses_step connID err s)
             = written s @ [Rsp200 (NextToCommit (forwarder s) connID)]
           \<or> written (handleResponses_step connID err s)
             = written s @ [Rsp500 (NextToCommit (forwarder s) connID)])))
   \<and> (\<exists>rest. received_txnrs connID evs
              = written_txnrs (relp_run connID (start_connection f connID) evs) @ rest)
   \<and> distinct (written_txnrs (relp_run connID (start_connection f connID) evs))
   \<and> (sorted (received_txnrs connID evs)
        \<longrightarrow> sorted_wrt (<) (written_txnrs (relp_run connID (start_connection f connID) evs)))"
proof -
  let ?s = "relp_run connID (start_connection f connID) evs"
  have inv: "relp_inv connID (received_txnrs connID evs) ?s"
    using relp_run_inv [OF start_connection_inv [of connID f], of evs] by simp
  then obtain rest where r: "received_txnrs connID evs = written_txnrs ?s @ rest"
    using order_inv_prefix unfolding relp_inv_def by blast
  have d: "distinct (written_txnrs ?s)" using inv by (simp add: relp_inv_def maps_inv_def)
  have "sorted_wrt (<) (written_txnrs ?s)" if "sorted (received_txnrs connID evs)"
  proof -
    from that r have "sorted (written_txnrs ?s)" by (simp add: sorted_append)
    then show ?thesis using d by (rule sorted_distinct_strict)
  qed
  with r d handleResponses_step_writes_next [of connID err s] show ?thesis by blast
qed

theorem C1_relp_responses_follow_txnr_order_witness:
  "sorted (received_txnrs 1 example_relp_events)
   \<and> written (relp_run 1 (start_connection Map.empty 1) example_relp_events) = [Rsp500 1, Rsp200 2]
   \<and> sorted_wrt (<) (written_txnrs (relp_run 1 (start_connection Map.empty 1) example_relp_events))"
proof -
  have r: "received_txnrs 1 example_relp_events = [1, 2, 3]"
    by (simp add: example_relp_events_def)
  have w: "written (relp_run 1 (start_connection Map.empty 1) example_relp_events)
             = [Rsp500 1, Rsp200 2]"
    by code_simp
  from C1_relp_responses_follow_txnr_order [of 1 WriteOk "start_connection Map.empty 1"
         example_relp_events Map.empty] r w
  show ?thesis by simp
qed

end
